theory Spec2Isabelle
  imports Main "HOL-Library.Sublist"
begin

section \<open>JavaScript strings\<close>

text \<open>
  A JavaScript string is a sequence of UTF-16 code units. A code unit is modelled as a
  natural number (below 65536 in every string the program can see), a string as a list of
  code units. Characters outside the Basic Multilingual Plane, such as most of the emoji
  markers of the task format, are two code units (a surrogate pair).
\<close>

type_synonym jschar = nat
type_synonym jsstring = "nat list"

text \<open>An ASCII literal of the source: \<open>js ''done''\<close> is the string \<open>'done'\<close>.\<close>

definition js :: "string \<Rightarrow> jsstring" where
  "js s = map of_char s"

text \<open>
  \<open>WhiteSpace\<close> and \<open>LineTerminator\<close> of ECMAScript: the characters that
  \<open>String.prototype.trim\<close> strips and that the regular-expression class \<open>\s\<close> matches.
\<close>

definition isLineTerminator :: "jschar \<Rightarrow> bool" where
  "isLineTerminator c = (c = 10 \<or> c = 13 \<or> c = 0x2028 \<or> c = 0x2029)"

definition isWhiteSpace :: "jschar \<Rightarrow> bool" where
  "isWhiteSpace c =
     (c = 9 \<or> c = 11 \<or> c = 12 \<or> c = 32 \<or> c = 0xA0 \<or> c = 0x1680 \<or>
      (0x2000 \<le> c \<and> c \<le> 0x200A) \<or> c = 0x202F \<or> c = 0x205F \<or> c = 0x3000 \<or>
      c = 0xFEFF \<or> isLineTerminator c)"

text \<open>The regular-expression classes \<open>\d\<close> and \<open>[0-9]\<close>.\<close>

definition isDigit :: "jschar \<Rightarrow> bool" where
  "isDigit c = (48 \<le> c \<and> c \<le> 57)"

definition isHighSurrogate :: "jschar \<Rightarrow> bool" where
  "isHighSurrogate c = (0xD800 \<le> c \<and> c \<le> 0xDBFF)"

definition isLowSurrogate :: "jschar \<Rightarrow> bool" where
  "isLowSurrogate c = (0xDC00 \<le> c \<and> c \<le> 0xDFFF)"

text \<open>\<open>String.prototype.trim\<close>.\<close>

definition trim :: "jsstring \<Rightarrow> jsstring" where
  "trim s = rev (dropWhile isWhiteSpace (rev (dropWhile isWhiteSpace s)))"

text \<open>
  \<open>String.prototype.toLowerCase\<close> on the ASCII letters \<open>A\<close> to \<open>Z\<close>; every other code
  unit is left as it is. This is the function of the engine on strings whose letters are
  ASCII. Where a property depends on the lower-casing of other letters, the function of
  the engine is a parameter (\<open>applyPredicateLc\<close>, \<open>applyFilterStack\<close>).
\<close>

definition lowerChar :: "jschar \<Rightarrow> jschar" where
  "lowerChar c = (if 65 \<le> c \<and> c \<le> 90 then c + 32 else c)"

definition toLowerCase :: "jsstring \<Rightarrow> jsstring" where
  "toLowerCase s = map lowerChar s"

text \<open>\<open>s.startsWith(p)\<close>.\<close>

fun startsWith :: "jsstring \<Rightarrow> jsstring \<Rightarrow> bool" where
  "startsWith s [] = True"
| "startsWith [] (p # ps) = False"
| "startsWith (c # cs) (p # ps) = (c = p \<and> startsWith cs ps)"

text \<open>\<open>s.includes(sub)\<close>: \<open>sub\<close> occurs in \<open>s\<close> at some position.\<close>

fun includes_js :: "jsstring \<Rightarrow> jsstring \<Rightarrow> bool" where
  "includes_js [] sub = startsWith [] sub"
| "includes_js (c # cs) sub = (startsWith (c # cs) sub \<or> includes_js cs sub)"

text \<open>
  \<open>s.split(sep)\<close> with a string separator: the pieces between the occurrences of \<open>sep\<close>,
  found from left to right without overlap. An empty separator splits into code units.
  \<open>split_go sep acc s\<close> scans \<open>s\<close> with the current piece collected, reversed, in \<open>acc\<close>.
\<close>

function split_go :: "jsstring \<Rightarrow> jsstring \<Rightarrow> jsstring \<Rightarrow> jsstring list" where
  "split_go sep acc [] = [rev acc]"
| "split_go sep acc (c # cs) =
     (if sep \<noteq> [] \<and> startsWith (c # cs) sep
      then rev acc # split_go sep [] (drop (length sep) (c # cs))
      else split_go sep (c # acc) cs)"
  by pat_completeness auto
termination
  by (relation "measure (\<lambda>(sep, acc, s). length s)") (auto simp: neq_Nil_conv)

definition split_js :: "jsstring \<Rightarrow> jsstring \<Rightarrow> jsstring list" where
  "split_js s sep = (if sep = [] then map (\<lambda>c. [c]) s else split_go sep [] s)"

text \<open>
  The relational operators on strings compare code unit by code unit; a proper prefix is
  smaller.
\<close>

fun js_lt :: "jsstring \<Rightarrow> jsstring \<Rightarrow> bool" where
  "js_lt [] [] = False"
| "js_lt [] (b # bs) = True"
| "js_lt (a # as) [] = False"
| "js_lt (a # as) (b # bs) = (a < b \<or> (a = b \<and> js_lt as bs))"

text \<open>
  The decimal digits of a line number, as the template literal prints a non-negative
  integer.
\<close>

function digitsOf :: "nat \<Rightarrow> jsstring" where
  "digitsOf n = (if n < 10 then [48 + n] else digitsOf (n div 10) @ [48 + n mod 10])"
  by pat_completeness auto
termination
  by (relation "measure (\<lambda>n. n)") auto

section \<open>The task record\<close>

datatype status =
  Complete | Incomplete | Cancelled | In_progress | Non_task

record task =
  task_id :: jsstring
  description :: jsstring
  status :: status
  statusSymbol :: jsstring
  filePath :: jsstring
  lineNumber :: nat
  tags :: "jsstring list"
  dueDate :: "jsstring option"
  scheduledDate :: "jsstring option"
  createdDate :: "jsstring option"
  startDate :: "jsstring option"
  priority :: "jsstring option"
  recurrence :: "jsstring option"
  originalMarkdown :: jsstring

section \<open>The regular expressions of \<open>TaskRegex\<close>\<close>

subsection \<open>\<open>taskRegex\<close>\<close>

text \<open>
  \<open>taskRegex\<close> is \<open>^([\s\t>]*)([-*+]|[0-9]+[.)]) +\[(.)\] *(.*)\<close> with the flag \<open>u\<close>.
  Every repetition in it is followed by a character its own class excludes, so the
  greedy choice is the only one and the match is computed from left to right.
\<close>

definition isIndentation :: "jschar \<Rightarrow> bool" where
  "isIndentation c = (isWhiteSpace c \<or> c = 9 \<or> c = 62)"

text \<open>\<open>([-*+]|[0-9]+[.)])\<close>: the marker and what follows it.\<close>

definition matchListMarker :: "jsstring \<Rightarrow> (jsstring \<times> jsstring) option" where
  "matchListMarker s =
     (case s of
        [] \<Rightarrow> None
      | c # cs \<Rightarrow>
          if c = 45 \<or> c = 42 \<or> c = 43 then Some ([c], cs)
          else
            (let ds = takeWhile isDigit s in
             case dropWhile isDigit s of
               [] \<Rightarrow> None
             | d # r \<Rightarrow> if ds \<noteq> [] \<and> (d = 46 \<or> d = 41) then Some (ds @ [d], r) else None))"

text \<open>
  \<open>(.)\<close> under the flag \<open>u\<close>: one code point that is not a line terminator, which is a
  surrogate pair or a single code unit.
\<close>

definition matchAnyCodePoint :: "jsstring \<Rightarrow> (jsstring \<times> jsstring) option" where
  "matchAnyCodePoint s =
     (case s of
        [] \<Rightarrow> None
      | c # cs \<Rightarrow>
          (case cs of
             [] \<Rightarrow> if isLineTerminator c then None else Some ([c], cs)
           | d # r \<Rightarrow>
               if isHighSurrogate c \<and> isLowSurrogate d then Some ([c, d], r)
               else if isLineTerminator c then None
               else Some ([c], cs)))"

text \<open>The four groups of a match: indentation, list marker, status character, rest.\<close>

definition matchTaskRegex ::
  "jsstring \<Rightarrow> (jsstring \<times> jsstring \<times> jsstring \<times> jsstring) option" where
  "matchTaskRegex line =
     (let indentation = takeWhile isIndentation line in
      case matchListMarker (dropWhile isIndentation line) of
        None \<Rightarrow> None
      | Some (listMarker, r1) \<Rightarrow>
          if takeWhile (\<lambda>c. c = 32) r1 = [] then None
          else
            (case dropWhile (\<lambda>c. c = 32) r1 of
               [] \<Rightarrow> None
             | b # r2 \<Rightarrow>
                 if b \<noteq> 91 then None
                 else
                   (case matchAnyCodePoint r2 of
                      None \<Rightarrow> None
                    | Some (statusChar, r3) \<Rightarrow>
                        (case r3 of
                           [] \<Rightarrow> None
                         | e # r4 \<Rightarrow>
                             if e \<noteq> 93 then None
                             else
                               Some (indentation, listMarker, statusChar,
                                 takeWhile (\<lambda>c. \<not> isLineTerminator c)
                                   (dropWhile (\<lambda>c. c = 32) r4))))))"

subsection \<open>\<open>hashTags\<close>\<close>

text \<open>
  \<open>hashTags\<close> is \<open>(^|\s)#[^ !@#$%^&*(),.?":{}|<>]+\<close> with the flag \<open>g\<close>. The characters
  that end a tag:
\<close>

definition hashTagEnd :: "jschar \<Rightarrow> bool" where
  "hashTagEnd c = (c \<in> set (js '' !@#$%^&*(),.?'' @ [34] @ js '':{}|<>''))"

text \<open>
  All matches of \<open>hashTags\<close> in order, as \<open>description.match\<close> returns them. \<open>atStart\<close>
  says that the scan stands at index 0, where \<open>^\<close> matches. A match takes the
  white-space character before \<open>#\<close>, when that is how it started, and the longest run of
  tag characters, at least one; the scan goes on after the match.
\<close>

function matchAllHashTags :: "bool \<Rightarrow> jsstring \<Rightarrow> jsstring list" where
  "matchAllHashTags atStart [] = []"
| "matchAllHashTags atStart (c # cs) =
     (if atStart \<and> c = 35 \<and> takeWhile (\<lambda>x. \<not> hashTagEnd x) cs \<noteq> []
      then (c # takeWhile (\<lambda>x. \<not> hashTagEnd x) cs)
             # matchAllHashTags False (dropWhile (\<lambda>x. \<not> hashTagEnd x) cs)
      else
        (case cs of
           [] \<Rightarrow> []
         | d # r \<Rightarrow>
             if isWhiteSpace c \<and> d = 35 \<and> takeWhile (\<lambda>x. \<not> hashTagEnd x) r \<noteq> []
             then (c # d # takeWhile (\<lambda>x. \<not> hashTagEnd x) r)
                    # matchAllHashTags False (dropWhile (\<lambda>x. \<not> hashTagEnd x) r)
             else matchAllHashTags False cs))"
  by pat_completeness auto
termination
  by (relation "measure (\<lambda>(b, s). length s)")
     (auto simp: less_Suc_eq_le intro: le_trans [OF length_dropWhile_le])

subsection \<open>The date expressions\<close>

text \<open>\<open>\d{4}-\d{2}-\d{2}\<close> on a string of exactly ten code units.\<close>

definition isDate :: "jsstring \<Rightarrow> bool" where
  "isDate s =
     (case s of
        [y1, y2, y3, y4, h1, m1, m2, h2, d1, d2] \<Rightarrow>
          isDigit y1 \<and> isDigit y2 \<and> isDigit y3 \<and> isDigit y4 \<and> h1 = 45 \<and>
          isDigit m1 \<and> isDigit m2 \<and> h2 = 45 \<and> isDigit d1 \<and> isDigit d2
      | _ \<Rightarrow> False)"

text \<open>
  \<open>\s?(\d{4}-\d{2}-\d{2})\<close> at the head of \<open>s\<close>: the captured date. When the optional
  white space is there it is taken, since a date cannot begin with it.
\<close>

definition matchDateAt :: "jsstring \<Rightarrow> jsstring option" where
  "matchDateAt s =
     (let r = (case s of [] \<Rightarrow> [] | c # cs \<Rightarrow> if isWhiteSpace c then cs else s) in
      if isDate (take 10 r) then Some (take 10 r) else None)"

text \<open>
  \<open>dueDateRegex\<close> has no flag \<open>u\<close>, so its class \<open>[...]\<close> of two emoji (one of them with a
  variation selector) is a class of code units: the halves of both surrogate pairs and
  the selector.
\<close>

definition isDueMarker :: "jschar \<Rightarrow> bool" where
  "isDueMarker c = (c = 0xD83D \<or> c = 0xDCC5 \<or> c = 0xDDD3 \<or> c = 0xFE0F)"

text \<open>The first match of \<open>dueDateRegex\<close>, from the left: its group 1.\<close>

fun matchDueDate :: "jsstring \<Rightarrow> jsstring option" where
  "matchDueDate [] = None"
| "matchDueDate (c # cs) =
     (if isDueMarker c
      then (case matchDateAt cs of Some d \<Rightarrow> Some d | None \<Rightarrow> matchDueDate cs)
      else matchDueDate cs)"

text \<open>
  The first match of a literal marker followed by \<open>\s?(\d{4}-\d{2}-\d{2})\<close>: the
  scheduled, start and created dates.
\<close>

fun matchMarkedDate :: "jsstring \<Rightarrow> jsstring \<Rightarrow> jsstring option" where
  "matchMarkedDate marker [] = None"
| "matchMarkedDate marker (c # cs) =
     (if startsWith (c # cs) marker
      then (case matchDateAt (drop (length marker) (c # cs)) of
              Some d \<Rightarrow> Some d
            | None \<Rightarrow> matchMarkedDate marker cs)
      else matchMarkedDate marker cs)"

definition scheduledMarker :: jsstring where
  "scheduledMarker = [0x23F3]"

definition startMarker :: jsstring where
  "startMarker = [0xD83D, 0xDEEB]"

definition createdMarker :: jsstring where
  "createdMarker = [0x2795]"

subsection \<open>\<open>recurrenceRegex\<close>\<close>

text \<open>
  \<open>recurrenceRegex\<close> is the marker, \<open>\s?\<close>, a lazy \<open>(.*?)\<close> and the lookahead
  \<open>(?=(\s|$))\<close>: group 1 is what stands between the marker (and one white-space
  character after it) and the next white space or the end. It matches at the first
  occurrence of the marker.
\<close>

definition recurrenceMarker :: jsstring where
  "recurrenceMarker = [0xD83D, 0xDD01]"

fun matchRecurrence :: "jsstring \<Rightarrow> jsstring option" where
  "matchRecurrence [] = None"
| "matchRecurrence (c # cs) =
     (if startsWith (c # cs) recurrenceMarker
      then
        (let r = drop (length recurrenceMarker) (c # cs);
             r' = (case r of [] \<Rightarrow> [] | w # ws \<Rightarrow> if isWhiteSpace w then ws else r)
         in Some (takeWhile (\<lambda>x. \<not> isWhiteSpace x) r'))
      else matchRecurrence cs)"

subsection \<open>The priority markers\<close>

definition highestMarker :: jsstring where
  "highestMarker = [0x23EB, 0x23EB]"

definition highMarker :: jsstring where
  "highMarker = [0x23EB]"

definition mediumMarker :: jsstring where
  "mediumMarker = [0xD83D, 0xDD3C]"

definition lowMarker :: jsstring where
  "lowMarker = [0xD83D, 0xDD3D]"

definition lowestMarker :: jsstring where
  "lowestMarker = [0x23EC]"

text \<open>
  All matches of the alternation of the five markers, with the flag \<open>g\<close>: at each
  position the alternatives are tried in the order written, the doubled marker first,
  and the scan goes on after a match.
\<close>

function matchAllPriority :: "jsstring \<Rightarrow> jsstring list" where
  "matchAllPriority [] = []"
| "matchAllPriority (c # cs) =
     (if startsWith (c # cs) highestMarker
        then highestMarker # matchAllPriority (drop 2 (c # cs))
      else if startsWith (c # cs) highMarker
        then highMarker # matchAllPriority (drop 1 (c # cs))
      else if startsWith (c # cs) mediumMarker
        then mediumMarker # matchAllPriority (drop 2 (c # cs))
      else if startsWith (c # cs) lowMarker
        then lowMarker # matchAllPriority (drop 2 (c # cs))
      else if startsWith (c # cs) lowestMarker
        then lowestMarker # matchAllPriority (drop 1 (c # cs))
      else matchAllPriority cs)"
  by pat_completeness auto
termination
  by (relation "measure length") auto

section \<open>\<open>parseTaskLine\<close> and \<open>parseTasks\<close>\<close>

text \<open>
  \<open>parseTaskLine\<close> returns \<open>null\<close> (here \<open>None\<close>) when \<open>taskRegex\<close> does not match.
  Otherwise every field is computed from the trimmed group 4, the description, and the
  line itself is kept in \<open>originalMarkdown\<close>. The line number is a natural number, as
  \<open>parseTasks\<close> passes it; a caller that leaves out the file path or the line number
  passes the defaults, the empty string and 0.
\<close>

definition parseTaskLine :: "jsstring \<Rightarrow> jsstring \<Rightarrow> nat \<Rightarrow> task option" where
  "parseTaskLine line filePath' lineNumber' =
     (case matchTaskRegex line of
        None \<Rightarrow> None
      | Some (indentation, listMarker, statusChar, rest) \<Rightarrow>
          (let description' = trim rest;
               tags' = filter (\<lambda>tag. length tag > 0)
                         (map trim (matchAllHashTags True description'));
               dueMatch = matchDueDate description';
               scheduledMatch = matchMarkedDate scheduledMarker description';
               startMatch = matchMarkedDate startMarker description';
               createdMatch = matchMarkedDate createdMarker description';
               recurrenceMatch = matchRecurrence description';
               priorityMatches = matchAllPriority description';
               priority' =
                 (case priorityMatches of
                    [] \<Rightarrow> None
                  | firstPriority # _ \<Rightarrow>
                      if firstPriority = highestMarker then Some (js ''highest'')
                      else if firstPriority = highMarker then Some (js ''high'')
                      else if firstPriority = mediumMarker then Some (js ''medium'')
                      else if firstPriority = lowMarker then Some (js ''low'')
                      else if firstPriority = lowestMarker then Some (js ''lowest'')
                      else None);
               id' = filePath' @ js '':'' @ digitsOf lineNumber';
               status' =
                 (if statusChar \<in> set [js ''x'', js ''X''] then Complete
                  else if statusChar \<in> set [js ''-''] then Cancelled
                  else if statusChar \<in> set [js ''/''] then In_progress
                  else if statusChar \<in> set [js '' '', js ''>'', js ''<''] then Incomplete
                  else Non_task)
           in Some \<lparr>task_id = id',
                     description = description',
                     status = status',
                     statusSymbol = statusChar,
                     filePath = filePath',
                     lineNumber = lineNumber',
                     tags = tags',
                     dueDate = dueMatch,
                     scheduledDate = scheduledMatch,
                     createdDate = createdMatch,
                     startDate = startMatch,
                     priority = priority',
                     recurrence = recurrenceMatch,
                     originalMarkdown = line\<rparr>))"

text \<open>\<open>parseTasks\<close>: the lines of the text, numbered from 0, that are tasks.\<close>

definition parseTasks :: "jsstring \<Rightarrow> jsstring \<Rightarrow> task list" where
  "parseTasks text' filePath' =
     List.map_filter (\<lambda>(i, line). parseTaskLine line filePath' i)
       (enumerate 0 (split_js text' [10]))"

text \<open>\<open>taskToString\<close>.\<close>

definition taskToString :: "task \<Rightarrow> jsstring" where
  "taskToString t = originalMarkdown t"

section \<open>\<open>applyFilter\<close>\<close>

text \<open>
  The code of \<open>applyFilter\<close> can throw in two ways. One is a method call on
  \<open>undefined\<close>, when \<open>split(...)[1]\<close> reads past the end of the array: a
  \<open>TypeError\<close>. The other is a nesting of calls deeper than the call stack of the
  engine holds: a \<open>RangeError\<close>. A result is \<open>Inl\<close> of the error or \<open>Inr\<close> of the
  boolean returned.
\<close>

datatype js_error = TypeError | RangeError

text \<open>\<open>parts[1].trim()\<close>.\<close>

definition trimAt1 :: "jsstring list \<Rightarrow> js_error + jsstring" where
  "trimAt1 parts = (case parts of p0 # p1 # _ \<Rightarrow> Inr (trim p1) | _ \<Rightarrow> Inl TypeError)"

text \<open>
  \<open>Array.prototype.every\<close> and \<open>some\<close> call the function from left to right and stop at
  the first result that decides; an exception of the function ends the call.
\<close>

fun every_js :: "('a \<Rightarrow> js_error + bool) \<Rightarrow> 'a list \<Rightarrow> js_error + bool" where
  "every_js f [] = Inr True"
| "every_js f (x # xs) =
     (case f x of Inl e \<Rightarrow> Inl e | Inr b \<Rightarrow> if b then every_js f xs else Inr False)"

fun some_js :: "('a \<Rightarrow> js_error + bool) \<Rightarrow> 'a list \<Rightarrow> js_error + bool" where
  "some_js f [] = Inr False"
| "some_js f (x # xs) =
     (case f x of Inl e \<Rightarrow> Inl e | Inr b \<Rightarrow> if b then Inr True else some_js f xs)"

text \<open>\<open>Array.prototype.filter\<close> with a function that may throw.\<close>

fun filter_js :: "('a \<Rightarrow> js_error + bool) \<Rightarrow> 'a list \<Rightarrow> js_error + 'a list" where
  "filter_js f [] = Inr []"
| "filter_js f (x # xs) =
     (case f x of
        Inl e \<Rightarrow> Inl e
      | Inr b \<Rightarrow>
          (case filter_js f xs of
             Inl e \<Rightarrow> Inl e
           | Inr ys \<Rightarrow> Inr (if b then x # ys else ys)))"

text \<open>\<open>tag.replace(/^#/, '')\<close>.\<close>

definition stripHash :: "jsstring \<Rightarrow> jsstring" where
  "stripHash s = (case s of [] \<Rightarrow> [] | c # cs \<Rightarrow> if c = 35 then cs else s)"

subsection \<open>The due-date filters\<close>

text \<open>\<open>\s+\<close> at the head of \<open>s\<close>: what follows the white space.\<close>

definition skipWhiteSpace1 :: "jsstring \<Rightarrow> jsstring option" where
  "skipWhiteSpace1 s =
     (case s of
        [] \<Rightarrow> None
      | c # cs \<Rightarrow> if isWhiteSpace c then Some (dropWhile isWhiteSpace s) else None)"

text \<open>\<open>(\d{4}-\d{2}-\d{2})$\<close>: the whole of \<open>s\<close> is a date.\<close>

definition matchExactDate :: "jsstring \<Rightarrow> jsstring option" where
  "matchExactDate s = (if isDate s then Some s else None)"

text \<open>\<open>/^due\s+(?:on\s+)?(\d{4}-\d{2}-\d{2})$/\<close>: the optional group is tried first.\<close>

definition matchDueOn :: "jsstring \<Rightarrow> jsstring option" where
  "matchDueOn flt =
     (if startsWith flt (js ''due'') then
        (case skipWhiteSpace1 (drop 3 flt) of
           None \<Rightarrow> None
         | Some r \<Rightarrow>
             if startsWith r (js ''on'') then
               (case skipWhiteSpace1 (drop 2 r) of
                  None \<Rightarrow> matchExactDate r
                | Some r' \<Rightarrow>
                    (case matchExactDate r' of Some d \<Rightarrow> Some d | None \<Rightarrow> matchExactDate r))
             else matchExactDate r)
      else None)"

text \<open>
  \<open>/^due\s+before\s+(\d{4}-\d{2}-\d{2})$/\<close> and \<open>/^due\s+after\s+(\d{4}-\d{2}-\d{2})$/\<close>,
  with the word as a parameter.
\<close>

definition matchDueWord :: "jsstring \<Rightarrow> jsstring \<Rightarrow> jsstring option" where
  "matchDueWord word flt =
     (if startsWith flt (js ''due'') then
        (case skipWhiteSpace1 (drop 3 flt) of
           None \<Rightarrow> None
         | Some r \<Rightarrow>
             if startsWith r word then
               (case skipWhiteSpace1 (drop (length word) r) of
                  None \<Rightarrow> None
                | Some r' \<Rightarrow> matchExactDate r')
             else None)
      else None)"

text \<open>
  The block of the due-date filters. \<open>today\<close> is \<open>moment().format('YYYY-MM-DD')\<close>, the
  one value that \<open>applyFilter\<close> reads from outside its arguments. \<open>None\<close> says that the
  block returned nothing and the code goes on below it.
\<close>

definition dueFilter :: "jsstring \<Rightarrow> task \<Rightarrow> jsstring \<Rightarrow> bool option" where
  "dueFilter today t flt =
     (if startsWith flt (js ''due'') \<or> flt = js ''has due date'' \<or> flt = js ''no due date''
      then
        if flt = js ''due today'' then Some (dueDate t = Some today)
        else if flt = js ''due before today''
          then Some (case dueDate t of None \<Rightarrow> False | Some d \<Rightarrow> js_lt d today)
        else if flt = js ''due after today''
          then Some (case dueDate t of None \<Rightarrow> False | Some d \<Rightarrow> js_lt today d)
        else if flt = js ''no due date'' then Some (dueDate t = None)
        else if flt = js ''has due date'' then Some (dueDate t \<noteq> None)
        else
          (case matchDueOn flt of
             Some targetDate \<Rightarrow> Some (dueDate t = Some targetDate)
           | None \<Rightarrow>
               (case matchDueWord (js ''before'') flt of
                  Some targetDate \<Rightarrow>
                    Some (case dueDate t of None \<Rightarrow> False | Some d \<Rightarrow> js_lt d targetDate)
                | None \<Rightarrow>
                    (case matchDueWord (js ''after'') flt of
                       Some targetDate \<Rightarrow>
                         Some (case dueDate t of None \<Rightarrow> False | Some d \<Rightarrow> js_lt targetDate d)
                     | None \<Rightarrow> None)))
      else None)"

subsection \<open>The priority filters\<close>

text \<open>
  The block of \<open>priority is ...\<close>: \<open>Inr None\<close> says that it returned nothing, which is
  what happens to a level that is not one of the six words.
\<close>

definition priorityFilter :: "task \<Rightarrow> jsstring \<Rightarrow> js_error + bool option" where
  "priorityFilter t flt =
     (if startsWith flt (js ''priority is'') then
        (case trimAt1 (split_js flt (js ''priority is'')) of
           Inl e \<Rightarrow> Inl e
         | Inr p \<Rightarrow>
             if p = js ''highest'' then Inr (Some (priority t = Some (js ''highest'')))
             else if p = js ''high'' then Inr (Some (priority t = Some (js ''high'')))
             else if p = js ''medium'' then Inr (Some (priority t = Some (js ''medium'')))
             else if p = js ''low'' then Inr (Some (priority t = Some (js ''low'')))
             else if p = js ''lowest'' then Inr (Some (priority t = Some (js ''lowest'')))
             else if p = js ''none'' then Inr (Some (priority t = None))
             else Inr None)
      else Inr None)"

subsection \<open>The filters without a connective\<close>

text \<open>
  \<open>applyPredicate\<close> is the body of \<open>applyFilter\<close> below the connectives, from the status
  filters down to the last line, on the filter already lower-cased and trimmed.
\<close>

definition applyPredicate :: "jsstring \<Rightarrow> task \<Rightarrow> jsstring \<Rightarrow> js_error + bool" where
  "applyPredicate today t flt =
     (if flt = js ''done'' then Inr (status t = Complete)
      else if flt = js ''not done''
        then Inr (status t = Incomplete \<or> status t = In_progress)
      else if flt = js ''cancelled'' then Inr (status t = Cancelled)
      else if flt = js ''in progress'' then Inr (status t = In_progress)
      else
        (case dueFilter today t flt of
           Some b \<Rightarrow> Inr b
         | None \<Rightarrow>
             if flt = js ''no tags'' then Inr (tags t = [])
             else if flt = js ''has tags'' then Inr (tags t \<noteq> [])
             else if startsWith flt (js ''tag includes '') then
               (case trimAt1 (split_js flt (js ''tag includes '')) of
                  Inl e \<Rightarrow> Inl e
                | Inr p \<Rightarrow>
                    (let tagToFind = stripHash p in
                     Inr (list_ex (\<lambda>tag. includes_js (stripHash tag) tagToFind) (tags t))))
             else if startsWith flt (js ''has tag '') then
               (let tagToFind = stripHash (trim (drop 8 flt)) in
                Inr (list_ex (\<lambda>tag. stripHash tag = tagToFind) (tags t)))
             else if startsWith flt (js ''path includes'') then
               (case trimAt1 (split_js flt (js ''includes'')) of
                  Inl e \<Rightarrow> Inl e
                | Inr pathToFind \<Rightarrow>
                    Inr (includes_js (toLowerCase (filePath t)) (toLowerCase pathToFind)))
             else if startsWith flt (js ''path does not include'') then
               (case trimAt1 (split_js flt (js ''does not include'')) of
                  Inl e \<Rightarrow> Inl e
                | Inr pathToExclude \<Rightarrow>
                    Inr (\<not> includes_js (toLowerCase (filePath t)) (toLowerCase pathToExclude)))
             else if startsWith flt (js ''description includes'') then
               (case trimAt1 (split_js flt (js ''includes'')) of
                  Inl e \<Rightarrow> Inl e
                | Inr textToFind \<Rightarrow>
                    Inr (includes_js (toLowerCase (description t)) (toLowerCase textToFind)))
             else if startsWith flt (js ''description does not include'') then
               (case trimAt1 (split_js flt (js ''does not include'')) of
                  Inl e \<Rightarrow> Inl e
                | Inr textToExclude \<Rightarrow>
                    Inr (\<not> includes_js (toLowerCase (description t))
                              (toLowerCase textToExclude)))
             else
               (case priorityFilter t flt of
                  Inl e \<Rightarrow> Inl e
                | Inr (Some b) \<Rightarrow> Inr b
                | Inr None \<Rightarrow> Inr (includes_js (toLowerCase (description t)) flt))))"

text \<open>
  \<open>String.prototype.toLowerCase\<close> is a function of the engine, with the case mappings of
  all of Unicode. \<open>applyPredicateLc\<close> is the same body with that function as the
  parameter \<open>lc\<close>; \<open>applyPredicate\<close> is its instance for \<open>toLowerCase\<close>, the lower-casing
  of the ASCII letters.
\<close>

definition applyPredicateLc ::
  "(jsstring \<Rightarrow> jsstring) \<Rightarrow> jsstring \<Rightarrow> task \<Rightarrow> jsstring \<Rightarrow> js_error + bool" where
  "applyPredicateLc lc today t flt =
     (if flt = js ''done'' then Inr (status t = Complete)
      else if flt = js ''not done''
        then Inr (status t = Incomplete \<or> status t = In_progress)
      else if flt = js ''cancelled'' then Inr (status t = Cancelled)
      else if flt = js ''in progress'' then Inr (status t = In_progress)
      else
        (case dueFilter today t flt of
           Some b \<Rightarrow> Inr b
         | None \<Rightarrow>
             if flt = js ''no tags'' then Inr (tags t = [])
             else if flt = js ''has tags'' then Inr (tags t \<noteq> [])
             else if startsWith flt (js ''tag includes '') then
               (case trimAt1 (split_js flt (js ''tag includes '')) of
                  Inl e \<Rightarrow> Inl e
                | Inr p \<Rightarrow>
                    (let tagToFind = stripHash p in
                     Inr (list_ex (\<lambda>tag. includes_js (stripHash tag) tagToFind) (tags t))))
             else if startsWith flt (js ''has tag '') then
               (let tagToFind = stripHash (trim (drop 8 flt)) in
                Inr (list_ex (\<lambda>tag. stripHash tag = tagToFind) (tags t)))
             else if startsWith flt (js ''path includes'') then
               (case trimAt1 (split_js flt (js ''includes'')) of
                  Inl e \<Rightarrow> Inl e
                | Inr pathToFind \<Rightarrow>
                    Inr (includes_js (lc (filePath t)) (lc pathToFind)))
             else if startsWith flt (js ''path does not include'') then
               (case trimAt1 (split_js flt (js ''does not include'')) of
                  Inl e \<Rightarrow> Inl e
                | Inr pathToExclude \<Rightarrow>
                    Inr (\<not> includes_js (lc (filePath t)) (lc pathToExclude)))
             else if startsWith flt (js ''description includes'') then
               (case trimAt1 (split_js flt (js ''includes'')) of
                  Inl e \<Rightarrow> Inl e
                | Inr textToFind \<Rightarrow>
                    Inr (includes_js (lc (description t)) (lc textToFind)))
             else if startsWith flt (js ''description does not include'') then
               (case trimAt1 (split_js flt (js ''does not include'')) of
                  Inl e \<Rightarrow> Inl e
                | Inr textToExclude \<Rightarrow>
                    Inr (\<not> includes_js (lc (description t))
                              (lc textToExclude)))
             else
               (case priorityFilter t flt of
                  Inl e \<Rightarrow> Inl e
                | Inr (Some b) \<Rightarrow> Inr b
                | Inr None \<Rightarrow> Inr (includes_js (lc (description t)) flt))))"

subsection \<open>Lengths of the pieces of a string\<close>

text \<open>
  What the recursion of \<open>applyFilter\<close> rests on: trimming and lower-casing do not make a
  string longer, and a piece of a string split at a separator that occurs in it is
  shorter than the string.
\<close>

lemma length_trim_le: "length (trim s) \<le> length s"
  unfolding trim_def
  by (metis length_rev length_dropWhile_le le_trans)

lemma length_toLowerCase: "length (toLowerCase s) = length s"
  by (simp add: toLowerCase_def)

lemma startsWith_length: "startsWith s p \<Longrightarrow> length p \<le> length s"
  by (induction s p rule: startsWith.induct) auto

lemma split_go_length_le:
  "p \<in> set (split_go sep acc s) \<Longrightarrow> length p \<le> length acc + length s"
proof (induction sep acc s rule: split_go.induct)
  case (1 sep acc)
  then show ?case by simp
next
  case (2 sep acc c cs)
  show ?case
  proof (cases "sep \<noteq> [] \<and> startsWith (c # cs) sep")
    case True
    with 2 show ?thesis by (auto simp del: startsWith.simps)
  next
    case False
    with 2 show ?thesis by (auto simp del: startsWith.simps)
  qed
qed

lemma split_go_length_less:
  "sep \<noteq> [] \<Longrightarrow> includes_js s sep \<Longrightarrow> p \<in> set (split_go sep acc s)
     \<Longrightarrow> length p + length sep \<le> length acc + length s"
proof (induction sep acc s rule: split_go.induct)
  case (1 sep acc)
  then show ?case by (cases sep) auto
next
  case (2 sep acc c cs)
  show ?case
  proof (cases "startsWith (c # cs) sep")
    case True
    then have le: "length sep \<le> length (c # cs)" by (rule startsWith_length)
    from 2(3,5) True have "p = rev acc \<or> p \<in> set (split_go sep [] (drop (length sep) (c # cs)))"
      by (auto simp del: startsWith.simps)
    then show ?thesis
    proof
      assume "p = rev acc" with le show ?thesis by simp
    next
      assume "p \<in> set (split_go sep [] (drop (length sep) (c # cs)))"
      then have "length p \<le> length (drop (length sep) (c # cs))"
        using split_go_length_le by fastforce
      with le show ?thesis by simp
    qed
  next
    case False
    with 2(4) have inc: "includes_js cs sep" by simp
    from False 2(5) have "p \<in> set (split_go sep (c # acc) cs)" by (simp del: startsWith.simps)
    with 2(2)[OF _ 2(3) inc] False show ?thesis by (simp del: startsWith.simps)
  qed
qed

lemma split_js_part_less:
  "sep \<noteq> [] \<Longrightarrow> includes_js s sep \<Longrightarrow> p \<in> set (split_js s sep) \<Longrightarrow> length p < length s"
  using split_go_length_less [of sep s p "[]"] by (cases sep) (auto simp: split_js_def)

lemma every_js_cong [fundef_cong]:
  "xs = ys \<Longrightarrow> (\<And>x. x \<in> set ys \<Longrightarrow> f x = g x) \<Longrightarrow> every_js f xs = every_js g ys"
  by (induction ys arbitrary: xs) (auto split: sum.splits)

lemma some_js_cong [fundef_cong]:
  "xs = ys \<Longrightarrow> (\<And>x. x \<in> set ys \<Longrightarrow> f x = g x) \<Longrightarrow> some_js f xs = some_js g ys"
  by (induction ys arbitrary: xs) (auto split: sum.splits)

lemma js_nonempty: "js (c # cs) \<noteq> []"
  by (simp add: js_def)

subsection \<open>The connectives\<close>

text \<open>
  \<open>applyFilter\<close>, with \<open>today\<close> as a parameter. The filter is lower-cased and trimmed,
  then the tests for the connectives are made in the order of the source; the first two
  look for upper-case words in the lower-cased filter.
\<close>

function applyFilter :: "jsstring \<Rightarrow> task \<Rightarrow> jsstring \<Rightarrow> js_error + bool" where
  "applyFilter today t filter0 =
     (let flt = trim (toLowerCase filter0) in
      if includes_js flt (js '' AND '') then
        every_js (\<lambda>part. applyFilter today t (trim part)) (split_js flt (js '' AND ''))
      else if includes_js flt (js '' OR '') then
        some_js (\<lambda>part. applyFilter today t (trim part)) (split_js flt (js '' OR ''))
      else if includes_js flt (js '' and '') then
        every_js (\<lambda>part. applyFilter today t (trim part)) (split_js flt (js '' and ''))
      else if includes_js flt (js '' or '') then
        some_js (\<lambda>part. applyFilter today t (trim part)) (split_js flt (js '' or ''))
      else if startsWith flt (js ''not '') then
        (case applyFilter today t (drop 4 flt) of
           Inl e \<Rightarrow> Inl e
         | Inr b \<Rightarrow> Inr (\<not> b))
      else applyPredicate today t flt)"
  by pat_completeness auto
termination
proof (relation "measure (\<lambda>(today, t, f). length f)", goal_cases)
  case 1
  show ?case by simp
next
  case (2 today t filter0 flt part)
  then show ?case
    using split_js_part_less [of "js '' AND ''" flt part] length_trim_le [of part]
      length_trim_le [of "toLowerCase filter0"]
    by (simp add: length_toLowerCase js_nonempty)
next
  case (3 today t filter0 flt part)
  then show ?case
    using split_js_part_less [of "js '' OR ''" flt part] length_trim_le [of part]
      length_trim_le [of "toLowerCase filter0"]
    by (simp add: length_toLowerCase js_nonempty)
next
  case (4 today t filter0 flt part)
  then show ?case
    using split_js_part_less [of "js '' and ''" flt part] length_trim_le [of part]
      length_trim_le [of "toLowerCase filter0"]
    by (simp add: length_toLowerCase js_nonempty)
next
  case (5 today t filter0 flt part)
  then show ?case
    using split_js_part_less [of "js '' or ''" flt part] length_trim_le [of part]
      length_trim_le [of "toLowerCase filter0"]
    by (simp add: length_toLowerCase js_nonempty)
next
  case (6 today t filter0 flt)
  then show ?case
    using startsWith_length [of flt "js ''not ''"] length_trim_le [of "toLowerCase filter0"]
    by (simp add: length_toLowerCase js_def)
qed

declare applyFilter.simps [simp del]

text \<open>
  \<open>applyFilter\<close> above is what the code computes when lower-casing is that of the ASCII
  letters and the call stack holds every nested call. \<open>applyFilterStack\<close> is the same
  code with both made explicit: \<open>lc\<close> is the engine's \<open>toLowerCase\<close>, and \<open>depth\<close> is
  the number of nested calls of \<open>applyFilter\<close> that the call stack still holds. A call
  made when none is left throws \<open>RangeError\<close>; the calls it makes itself have one less.
  The engine decides how large the number is; the code sets no bound on the nesting.
\<close>

fun applyFilterStack ::
  "(jsstring \<Rightarrow> jsstring) \<Rightarrow> nat \<Rightarrow> jsstring \<Rightarrow> task \<Rightarrow> jsstring \<Rightarrow> js_error + bool" where
  "applyFilterStack lc 0 today t filter0 = Inl RangeError"
| "applyFilterStack lc (Suc depth) today t filter0 =
     (let flt = trim (lc filter0) in
      if includes_js flt (js '' AND '') then
        every_js (\<lambda>part. applyFilterStack lc depth today t (trim part))
          (split_js flt (js '' AND ''))
      else if includes_js flt (js '' OR '') then
        some_js (\<lambda>part. applyFilterStack lc depth today t (trim part))
          (split_js flt (js '' OR ''))
      else if includes_js flt (js '' and '') then
        every_js (\<lambda>part. applyFilterStack lc depth today t (trim part))
          (split_js flt (js '' and ''))
      else if includes_js flt (js '' or '') then
        some_js (\<lambda>part. applyFilterStack lc depth today t (trim part))
          (split_js flt (js '' or ''))
      else if startsWith flt (js ''not '') then
        (case applyFilterStack lc depth today t (drop 4 flt) of
           Inl e \<Rightarrow> Inl e
         | Inr b \<Rightarrow> Inr (\<not> b))
      else applyPredicateLc lc today t flt)"

declare applyFilterStack.simps [simp del]

section \<open>\<open>parseQuery\<close> and \<open>queryTasks\<close>\<close>

definition parseQuery :: "jsstring \<Rightarrow> jsstring list" where
  "parseQuery queryText =
     filter (\<lambda>line. line \<noteq> [] \<and> \<not> startsWith line (js ''#''))
       (map trim (split_js queryText [10]))"

text \<open>
  The loop over the filters returns \<open>false\<close> at the first filter that does not hold, which
  is \<open>every\<close>.
\<close>

definition queryTasks :: "jsstring \<Rightarrow> task list \<Rightarrow> jsstring \<Rightarrow> js_error + task list" where
  "queryTasks today tasks queryText =
     (let filters = parseQuery queryText in
      filter_js (\<lambda>t. every_js (\<lambda>flt. applyFilter today t flt) filters) tasks)"

section \<open>The specification's notions\<close>

text \<open>
  The shape of a task line in the words of the specification: optional indentation
  (white space and \<open>>\<close>), a list marker (\<open>-\<close>, \<open>*\<close>, \<open>+\<close>, or digits followed by \<open>.\<close> or
  \<open>)\<close>), one or more spaces, and a checkbox \<open>[c]\<close> around a single character \<open>c\<close>. A
  character is a code point other than a line terminator: one code unit, or a surrogate
  pair.
\<close>

definition isListMarker :: "jsstring \<Rightarrow> bool" where
  "isListMarker m =
     (m = js ''-'' \<or> m = js ''*'' \<or> m = js ''+'' \<or>
      (\<exists>ds d. m = ds @ [d] \<and> ds \<noteq> [] \<and> (\<forall>x \<in> set ds. isDigit x) \<and>
         (d = 46 \<or> d = 41)))"

definition isCodePoint :: "jsstring \<Rightarrow> bool" where
  "isCodePoint c =
     ((\<exists>u. c = [u] \<and> \<not> isLineTerminator u) \<or>
      (\<exists>h l. c = [h, l] \<and> isHighSurrogate h \<and> isLowSurrogate l))"

definition taskShape :: "jsstring \<Rightarrow> jsstring \<Rightarrow> bool" where
  "taskShape line c =
     (\<exists>ind m sp rest.
        line = ind @ m @ sp @ js ''['' @ c @ js '']'' @ rest \<and>
        (\<forall>x \<in> set ind. isIndentation x) \<and> isListMarker m \<and>
        sp \<noteq> [] \<and> (\<forall>x \<in> set sp. x = 32) \<and> isCodePoint c)"

text \<open>
  The same shape with the rest of the line after the checkbox named, and the description
  of such a line: the rest up to its first line terminator, trimmed.
\<close>

definition taskLine :: "jsstring \<Rightarrow> jsstring \<Rightarrow> jsstring \<Rightarrow> bool" where
  "taskLine line c rest =
     (\<exists>ind m sp.
        line = ind @ m @ sp @ js ''['' @ c @ js '']'' @ rest \<and>
        (\<forall>x \<in> set ind. isIndentation x) \<and> isListMarker m \<and>
        sp \<noteq> [] \<and> (\<forall>x \<in> set sp. x = 32) \<and> isCodePoint c)"

definition specDescription :: "jsstring \<Rightarrow> jsstring" where
  "specDescription rest = trim (takeWhile (\<lambda>x. \<not> isLineTerminator x) rest)"

text \<open>The table of the specification from status symbol to status.\<close>

definition spec_status :: "jsstring \<Rightarrow> status" where
  "spec_status symbol =
     (if symbol = js ''x'' \<or> symbol = js ''X'' then Complete
      else if symbol = js ''-'' then Cancelled
      else if symbol = js ''/'' then In_progress
      else if symbol = js '' '' \<or> symbol = js ''>'' \<or> symbol = js ''<'' then Incomplete
      else Non_task)"

text \<open>
  The connectives of a filter, on the filter lower-cased and trimmed: it contains
  \<open>and\<close> or \<open>or\<close> between spaces, in either case, or begins with \<open>not\<close> and a space.
\<close>

definition isConnective :: "jsstring \<Rightarrow> bool" where
  "isConnective flt =
     (sublist (js '' AND '') flt \<or> sublist (js '' OR '') flt \<or>
      sublist (js '' and '') flt \<or> sublist (js '' or '') flt \<or>
      prefix (js ''not '') flt)"

text \<open>
  The parametrized due-date predicates as the specification writes them: \<open>due\<close>,
  white space, optionally \<open>on\<close> and white space, and a date that ends the clause; and
  the same with \<open>before\<close> or \<open>after\<close> for the word.
\<close>

definition isWhiteSpaces :: "jsstring \<Rightarrow> bool" where
  "isWhiteSpaces ws = (ws \<noteq> [] \<and> (\<forall>x \<in> set ws. isWhiteSpace x))"

definition specDueDate :: "jsstring \<Rightarrow> bool" where
  "specDueDate flt =
     ((\<exists>ws d. flt = js ''due'' @ ws @ d \<and> isWhiteSpaces ws \<and> isDate d) \<or>
      (\<exists>ws ws' d. flt = js ''due'' @ ws @ js ''on'' @ ws' @ d \<and>
         isWhiteSpaces ws \<and> isWhiteSpaces ws' \<and> isDate d))"

definition specDueWord :: "jsstring \<Rightarrow> jsstring \<Rightarrow> bool" where
  "specDueWord word flt =
     (\<exists>ws ws' d. flt = js ''due'' @ ws @ word @ ws' @ d \<and>
        isWhiteSpaces ws \<and> isWhiteSpaces ws' \<and> isDate d)"

text \<open>
  The priority predicate: \<open>priority is\<close>, a level or \<open>none\<close> with white space around
  it, and then nothing more, or a further \<open>priority is\<close> and any text.
\<close>

definition specPriority :: "jsstring \<Rightarrow> bool" where
  "specPriority flt =
     (\<exists>ws lvl ws' v.
        flt = js ''priority is'' @ ws @ lvl @ ws' @ v \<and>
        lvl \<in> set (map js [''highest'', ''high'', ''medium'', ''low'', ''lowest'', ''none'']) \<and>
        (\<forall>x \<in> set ws. isWhiteSpace x) \<and> (\<forall>x \<in> set ws'. isWhiteSpace x) \<and>
        (v = [] \<or> prefix (js ''priority is'') v))"

text \<open>
  The predicates of a filter, rule by rule as the specification lists them: the exact
  words, the parametrized due dates, and the predicates that begin with fixed words.
\<close>

definition isRecognizedPredicate :: "jsstring \<Rightarrow> bool" where
  "isRecognizedPredicate flt =
     (flt \<in> set (map js [''done'', ''not done'', ''cancelled'', ''in progress'',
                          ''due today'', ''due before today'', ''due after today'',
                          ''has due date'', ''no due date'', ''has tags'', ''no tags'']) \<or>
      specDueDate flt \<or>
      specDueWord (js ''before'') flt \<or>
      specDueWord (js ''after'') flt \<or>
      prefix (js ''has tag '') flt \<or>
      prefix (js ''tag includes '') flt \<or>
      prefix (js ''path includes'') flt \<or>
      prefix (js ''path does not include'') flt \<or>
      prefix (js ''description includes'') flt \<or>
      prefix (js ''description does not include'') flt \<or>
      specPriority flt)"

text \<open>
  A task of the repository's tests (\<open>Task with #tag\<close>, in \<open>/path/to/file1.md\<close>), with
  the status symbol and the line that \<open>parseTaskLine\<close> would record for it.
\<close>

definition testTask :: task where
  "testTask =
     \<lparr>task_id = js ''file1:2'',
      description = js ''Task with #tag'',
      status = Incomplete,
      statusSymbol = js '' '',
      filePath = js ''/path/to/file1.md'',
      lineNumber = 2,
      tags = [js ''#tag''],
      dueDate = None,
      scheduledDate = None,
      createdDate = None,
      startDate = None,
      priority = None,
      recurrence = None,
      originalMarkdown = js ''- [ ] Task with #tag''\<rparr>"

text \<open>Three variants of it: only the first is complete and has the tag \<open>#work\<close>.\<close>

definition workTasks :: "task list" where
  "workTasks =
     [testTask\<lparr>status := Complete, tags := [js ''#home'', js ''#work'']\<rparr>,
      testTask\<lparr>tags := [js ''#work'']\<rparr>,
      testTask\<lparr>status := Complete\<rparr>]"

text \<open>
  The five priority markers with their levels, and the descriptions in which none of
  them occurs.
\<close>

definition priorityLevels :: "(jsstring \<times> jsstring) list" where
  "priorityLevels =
     [(highestMarker, js ''highest''), (highMarker, js ''high''),
      (mediumMarker, js ''medium''), (lowMarker, js ''low''),
      (lowestMarker, js ''lowest'')]"

definition noMarkerIn :: "jsstring \<Rightarrow> bool" where
  "noMarkerIn s = (\<forall>mk \<in> set (map fst priorityLevels). \<not> includes_js s mk)"

text \<open>
  The tags in the words of the specification: at every \<open>#\<close> that stands at the start of
  the description or right after a white-space character, the substring from that \<open>#\<close>
  up to the next character that ends a tag, or to the end. \<open>prev\<close> says that the
  position before is the start or a white-space character.
\<close>

fun specHashTags :: "bool \<Rightarrow> jsstring \<Rightarrow> jsstring list" where
  "specHashTags prev [] = []"
| "specHashTags prev (c # cs) =
     (if prev \<and> c = 35 then [c # takeWhile (\<lambda>x. \<not> hashTagEnd x) cs] else [])
       @ specHashTags (isWhiteSpace c) cs"

text \<open>
  The tags as the code lists them, in the same words: a tag starts at a \<open>#\<close> at the
  start of the description or right after a white-space character that does not belong
  to the tag before, it has at least one character after the \<open>#\<close>, it runs to the
  next character that ends a tag or to the end, and it is listed trimmed. After a tag
  the scan goes on behind it, with \<open>prev\<close> false.
\<close>

function amendedHashTags :: "bool \<Rightarrow> jsstring \<Rightarrow> jsstring list" where
  "amendedHashTags prev [] = []"
| "amendedHashTags prev (c # cs) =
     (if prev \<and> c = 35 \<and> takeWhile (\<lambda>x. \<not> hashTagEnd x) cs \<noteq> []
      then trim (c # takeWhile (\<lambda>x. \<not> hashTagEnd x) cs)
             # amendedHashTags False (dropWhile (\<lambda>x. \<not> hashTagEnd x) cs)
      else amendedHashTags (isWhiteSpace c) cs)"
  by pat_completeness auto
termination
  by (relation "measure (\<lambda>(b, s). length s)")
     (auto simp: less_Suc_eq_le intro: le_trans [OF length_dropWhile_le])

text \<open>The field \<open>tags\<close> as \<open>parseTaskLine\<close> computes it from the matches of \<open>hashTags\<close>.\<close>

definition tagsOf :: "jsstring list \<Rightarrow> jsstring list" where
  "tagsOf ms = filter (\<lambda>tag. length tag > 0) (map trim ms)"

section \<open>Evaluation and the matcher of \<open>taskRegex\<close>\<close>

lemma js_simps:
  "js [] = []" "js (c # cs) = of_char c # js cs"
  by (simp_all add: js_def)

lemmas char_class_defs =
  isLineTerminator_def isWhiteSpace_def isDigit_def isHighSurrogate_def isLowSurrogate_def
  isIndentation_def hashTagEnd_def isDueMarker_def

lemmas marker_defs =
  scheduledMarker_def startMarker_def createdMarker_def recurrenceMarker_def
  highestMarker_def highMarker_def mediumMarker_def lowMarker_def lowestMarker_def

lemmas parse_defs =
  parseTaskLine_def matchTaskRegex_def matchListMarker_def matchAnyCodePoint_def
  trim_def isDate_def matchDateAt_def Let_def

text \<open>
  The matcher of \<open>taskRegex\<close> accepts exactly the lines of the shape, and its third group
  is the character in the checkbox.
\<close>

lemma matchListMarker_sound:
  "matchListMarker s = Some (m, r) \<Longrightarrow> s = m @ r \<and> isListMarker m"
proof -
  assume a: "matchListMarker s = Some (m, r)"
  then obtain c cs where s: "s = c # cs" by (cases s) (auto simp: matchListMarker_def)
  show ?thesis
  proof (cases "c = 45 \<or> c = 42 \<or> c = 43")
    case True
    with a s show ?thesis by (auto simp: matchListMarker_def isListMarker_def js_simps)
  next
    case False
    with a s obtain d where d: "dropWhile isDigit s = d # r" "takeWhile isDigit s \<noteq> []"
      "d = 46 \<or> d = 41" "m = takeWhile isDigit s @ [d]"
      by (auto simp: matchListMarker_def Let_def split: list.splits if_splits)
    have "s = takeWhile isDigit s @ dropWhile isDigit s" by simp
    with d have "s = m @ r" by simp
    moreover have "isListMarker m"
      unfolding isListMarker_def using d by (auto dest: set_takeWhileD)
    ultimately show ?thesis by simp
  qed
qed

lemma matchListMarker_complete:
  assumes "isListMarker m"
  shows "matchListMarker (m @ r) = Some (m, r)"
proof -
  from assms consider "m = [45]" | "m = [42]" | "m = [43]"
    | ds d where "m = ds @ [d]" "ds \<noteq> []" "\<forall>x \<in> set ds. isDigit x" "d = 46 \<or> d = 41"
    by (auto simp: isListMarker_def js_simps)
  then show ?thesis
  proof cases
    case 4
    then obtain x xs where ds: "ds = x # xs" by (cases ds) auto
    with 4 have x: "isDigit x" by simp
    then have nx: "\<not> (x = 45 \<or> x = 42 \<or> x = 43)" by (auto simp: isDigit_def)
    have nd: "\<not> isDigit d" using 4(4) by (auto simp: isDigit_def)
    have tw: "takeWhile isDigit (ds @ d # r) = ds"
      using 4(3) nd by (simp add: takeWhile_append2)
    have dw: "dropWhile isDigit (ds @ d # r) = d # r"
      using 4(3) nd by (simp add: dropWhile_append2)
    have "matchListMarker (ds @ d # r) = Some (ds @ [d], r)"
      unfolding matchListMarker_def tw dw Let_def using ds nx 4(2,4) by auto
    with 4(1) show ?thesis by simp
  qed (simp_all add: matchListMarker_def)
qed

lemma isListMarker_head:
  "isListMarker m \<Longrightarrow> \<exists>x xs. m = x # xs \<and> \<not> isIndentation x"
proof -
  assume "isListMarker m"
  then consider "m = [45]" | "m = [42]" | "m = [43]"
    | ds d where "m = ds @ [d]" "ds \<noteq> []" "\<forall>x \<in> set ds. isDigit x"
    by (auto simp: isListMarker_def js_simps)
  then show ?thesis
  proof cases
    case 4
    then obtain x xs where ds: "ds = x # xs" by (cases ds) auto
    with 4 have "isDigit x" by simp
    then have "\<not> isIndentation x"
      by (auto simp: isDigit_def isIndentation_def isWhiteSpace_def isLineTerminator_def)
    with 4 ds show ?thesis by simp
  qed (simp_all add: isIndentation_def isWhiteSpace_def isLineTerminator_def)
qed

lemma matchAnyCodePoint_sound:
  "matchAnyCodePoint s = Some (c, r) \<Longrightarrow> s = c @ r \<and> isCodePoint c"
  by (auto simp: matchAnyCodePoint_def isCodePoint_def split: list.splits if_splits)

lemma matchAnyCodePoint_complete:
  "isCodePoint c \<Longrightarrow> matchAnyCodePoint (c @ 93 # r) = Some (c, 93 # r)"
  by (auto simp: matchAnyCodePoint_def isCodePoint_def isLowSurrogate_def)

lemma matchTaskRegex_SomeD:
  "matchTaskRegex line = Some (i, m, c, r) \<Longrightarrow>
     \<exists>r1 r2 r4.
       i = takeWhile isIndentation line \<and>
       matchListMarker (dropWhile isIndentation line) = Some (m, r1) \<and>
       takeWhile (\<lambda>c. c = 32) r1 \<noteq> [] \<and>
       dropWhile (\<lambda>c. c = 32) r1 = 91 # r2 \<and>
       matchAnyCodePoint r2 = Some (c, 93 # r4) \<and>
       r = takeWhile (\<lambda>c. \<not> isLineTerminator c) (dropWhile (\<lambda>c. c = 32) r4)"
  by (auto simp: matchTaskRegex_def Let_def
           split: option.splits list.splits if_splits prod.splits)

lemma matchTaskRegex_sound:
  assumes "matchTaskRegex line = Some (i, m, c, r)"
  shows "taskShape line c"
proof -
  let ?r0 = "dropWhile isIndentation line"
  from matchTaskRegex_SomeD [OF assms] obtain r1 r2 r4 where
    i: "i = takeWhile isIndentation line" and
    m: "matchListMarker ?r0 = Some (m, r1)" and
    sp: "takeWhile (\<lambda>c. c = 32) r1 \<noteq> []" and
    r2: "dropWhile (\<lambda>c. c = 32) r1 = 91 # r2" and
    c: "matchAnyCodePoint r2 = Some (c, 93 # r4)"
    by blast
  let ?sp = "takeWhile (\<lambda>c. c = 32) r1"
  have "line = i @ ?r0" using i by simp
  also have "?r0 = m @ r1" using matchListMarker_sound [OF m] by simp
  also have "r1 = ?sp @ 91 # r2" using r2 [symmetric] by simp
  also have "r2 = c @ 93 # r4" using matchAnyCodePoint_sound [OF c] by simp
  finally have "line = i @ m @ ?sp @ js ''['' @ c @ js '']'' @ r4" by (simp add: js_simps)
  moreover have "\<forall>x \<in> set i. isIndentation x" using i by (auto dest: set_takeWhileD)
  moreover have "\<forall>x \<in> set ?sp. x = 32" by (auto dest: set_takeWhileD)
  ultimately show ?thesis
    unfolding taskShape_def
    using matchListMarker_sound [OF m] matchAnyCodePoint_sound [OF c] sp by blast
qed

lemma matchTaskRegex_complete:
  assumes "taskShape line c"
  shows "\<exists>i m r. matchTaskRegex line = Some (i, m, c, r)"
proof -
  from assms obtain ind m sp rest where
    line: "line = ind @ m @ sp @ 91 # c @ 93 # rest" and
    ind: "\<forall>x \<in> set ind. isIndentation x" and m: "isListMarker m" and
    sp: "sp \<noteq> []" "\<forall>x \<in> set sp. x = 32" and c: "isCodePoint c"
    by (auto simp: taskShape_def js_simps)
  from isListMarker_head [OF m] obtain x xs where x: "m = x # xs" "\<not> isIndentation x" by blast
  have tw: "takeWhile isIndentation line = ind"
    unfolding line using ind x by (simp add: takeWhile_append2)
  have dw: "dropWhile isIndentation line = m @ (sp @ 91 # c @ 93 # rest)"
    unfolding line using ind x by (simp add: dropWhile_append2)
  have tw2: "takeWhile (\<lambda>c. c = 32) (sp @ 91 # c @ 93 # rest) = sp"
    using sp by (simp add: takeWhile_append2)
  have dw2: "dropWhile (\<lambda>c. c = 32) (sp @ 91 # c @ 93 # rest) = 91 # c @ 93 # rest"
    using sp by (simp add: dropWhile_append2)
  show ?thesis
    unfolding matchTaskRegex_def tw dw Let_def matchListMarker_complete [OF m]
    using sp(1) by (simp add: tw2 dw2 matchAnyCodePoint_complete [OF c])
qed

lemma parseTaskLine_None_iff:
  "parseTaskLine line fp ln = None \<longleftrightarrow> matchTaskRegex line = None"
  unfolding parseTaskLine_def
  by (cases "matchTaskRegex line") (simp_all add: split_beta Let_def)

lemma parseTaskLine_SomeD:
  assumes "parseTaskLine line fp ln = Some t"
  shows "\<exists>i m c r. matchTaskRegex line = Some (i, m, c, r) \<and>
           statusSymbol t = c \<and> status t = spec_status c \<and>
           description t = trim r \<and> originalMarkdown t = line \<and>
           tags t = filter (\<lambda>tag. length tag > 0) (map trim (matchAllHashTags True (trim r))) \<and>
           priority t =
             (case matchAllPriority (trim r) of
                [] \<Rightarrow> None
              | firstPriority # _ \<Rightarrow>
                  if firstPriority = highestMarker then Some (js ''highest'')
                  else if firstPriority = highMarker then Some (js ''high'')
                  else if firstPriority = mediumMarker then Some (js ''medium'')
                  else if firstPriority = lowMarker then Some (js ''low'')
                  else if firstPriority = lowestMarker then Some (js ''lowest'')
                  else None)"
proof -
  from assms have "matchTaskRegex line \<noteq> None"
    using parseTaskLine_None_iff [of line fp ln] by simp
  then obtain i m c r where m: "matchTaskRegex line = Some (i, m, c, r)"
    by (cases "matchTaskRegex line") auto
  from assms have eq: "t = the (parseTaskLine line fp ln)" by simp
  have 1: "statusSymbol t = c"
    unfolding eq parseTaskLine_def m
    by (simp only: option.case prod.case Let_def option.sel task.select_convs)
  have "status t = (if c \<in> set [js ''x'', js ''X''] then Complete
                  else if c \<in> set [js ''-''] then Cancelled
                  else if c \<in> set [js ''/''] then In_progress
                  else if c \<in> set [js '' '', js ''>'', js ''<''] then Incomplete
                  else Non_task)"
    unfolding eq parseTaskLine_def m
    by (simp only: option.case prod.case Let_def option.sel task.select_convs)
  then have 2: "status t = spec_status c" by (simp add: spec_status_def)
  have 3: "description t = trim r"
    unfolding eq parseTaskLine_def m
    by (simp only: option.case prod.case Let_def option.sel task.select_convs)
  have 4: "originalMarkdown t = line"
    unfolding eq parseTaskLine_def m
    by (simp only: option.case prod.case Let_def option.sel task.select_convs)
  have 5: "tags t = filter (\<lambda>tag. length tag > 0) (map trim (matchAllHashTags True (trim r)))"
    unfolding eq parseTaskLine_def m
    by (simp only: option.case prod.case Let_def option.sel task.select_convs)
  have 6: "priority t =
             (case matchAllPriority (trim r) of
                [] \<Rightarrow> None
              | firstPriority # _ \<Rightarrow>
                  if firstPriority = highestMarker then Some (js ''highest'')
                  else if firstPriority = highMarker then Some (js ''high'')
                  else if firstPriority = mediumMarker then Some (js ''medium'')
                  else if firstPriority = lowMarker then Some (js ''low'')
                  else if firstPriority = lowestMarker then Some (js ''lowest'')
                  else None)"
    unfolding eq parseTaskLine_def m
    by (simp only: option.case prod.case Let_def option.sel task.select_convs)
  from m 1 2 3 4 5 6 show ?thesis by blast
qed

text \<open>
  A line of the shape is matched with the groups its decomposition names, and the
  description of the task is the description of the line.
\<close>

lemma matchTaskRegex_taskLine:
  assumes "taskLine line c rest"
  shows "\<exists>i m. matchTaskRegex line =
           Some (i, m, c, takeWhile (\<lambda>x. \<not> isLineTerminator x) (dropWhile (\<lambda>x. x = 32) rest))"
proof -
  from assms obtain ind m sp where
    line: "line = ind @ m @ sp @ 91 # c @ 93 # rest" and
    ind: "\<forall>x \<in> set ind. isIndentation x" and m: "isListMarker m" and
    sp: "sp \<noteq> []" "\<forall>x \<in> set sp. x = 32" and c: "isCodePoint c"
    by (auto simp: taskLine_def js_simps)
  from isListMarker_head [OF m] obtain x xs where x: "m = x # xs" "\<not> isIndentation x" by blast
  have tw: "takeWhile isIndentation line = ind"
    unfolding line using ind x by (simp add: takeWhile_append2)
  have dw: "dropWhile isIndentation line = m @ (sp @ 91 # c @ 93 # rest)"
    unfolding line using ind x by (simp add: dropWhile_append2)
  have tw2: "takeWhile (\<lambda>c. c = 32) (sp @ 91 # c @ 93 # rest) = sp"
    using sp by (simp add: takeWhile_append2)
  have dw2: "dropWhile (\<lambda>c. c = 32) (sp @ 91 # c @ 93 # rest) = 91 # c @ 93 # rest"
    using sp by (simp add: dropWhile_append2)
  show ?thesis
    unfolding matchTaskRegex_def tw dw Let_def matchListMarker_complete [OF m]
    using sp(1) by (simp add: tw2 dw2 matchAnyCodePoint_complete [OF c])
qed

lemma taskLine_of_match:
  assumes "matchTaskRegex line = Some (i, m, c, r)"
  shows "\<exists>rest. taskLine line c rest"
  using matchTaskRegex_sound [OF assms]
  unfolding taskShape_def taskLine_def by blast

lemma space_is_ws: "x = 32 \<Longrightarrow> isWhiteSpace x"
  by (simp add: isWhiteSpace_def)

lemma dropWhile_ws_spaces:
  "dropWhile isWhiteSpace (dropWhile (\<lambda>x. x = 32) s) = dropWhile isWhiteSpace s"
  by (induction s) (auto simp: space_is_ws)

lemma takeWhile_dropWhile_spaces:
  "takeWhile (\<lambda>x. \<not> isLineTerminator x) (dropWhile (\<lambda>x. x = 32) s) =
     dropWhile (\<lambda>x. x = 32) (takeWhile (\<lambda>x. \<not> isLineTerminator x) s)"
  by (induction s) (auto simp: isLineTerminator_def)

lemma trim_after_spaces:
  "trim (takeWhile (\<lambda>x. \<not> isLineTerminator x) (dropWhile (\<lambda>x. x = 32) rest)) =
     specDescription rest"
  unfolding specDescription_def trim_def takeWhile_dropWhile_spaces dropWhile_ws_spaces ..

lemma parseTaskLine_taskLine:
  assumes "taskLine line c rest"
  shows "\<exists>t. parseTaskLine line fp ln = Some t \<and> statusSymbol t = c \<and>
           description t = specDescription rest \<and>
           tags t = tagsOf (matchAllHashTags True (specDescription rest)) \<and>
           priority t =
             (case matchAllPriority (specDescription rest) of
                [] \<Rightarrow> None
              | firstPriority # _ \<Rightarrow>
                  if firstPriority = highestMarker then Some (js ''highest'')
                  else if firstPriority = highMarker then Some (js ''high'')
                  else if firstPriority = mediumMarker then Some (js ''medium'')
                  else if firstPriority = lowMarker then Some (js ''low'')
                  else if firstPriority = lowestMarker then Some (js ''lowest'')
                  else None)"
proof -
  from matchTaskRegex_taskLine [OF assms] obtain i m where
    m: "matchTaskRegex line =
          Some (i, m, c, takeWhile (\<lambda>x. \<not> isLineTerminator x) (dropWhile (\<lambda>x. x = 32) rest))"
    by blast
  then have "parseTaskLine line fp ln \<noteq> None" by (simp add: parseTaskLine_None_iff)
  then obtain t where t: "parseTaskLine line fp ln = Some t" by blast
  from parseTaskLine_SomeD [OF t] m t show ?thesis
    by (auto simp: trim_after_spaces tagsOf_def)
qed

lemma parseTaskLine_has_taskLine:
  assumes "parseTaskLine line fp ln \<noteq> None"
  shows "\<exists>c rest. taskLine line c rest"
proof -
  from assms obtain i m c r where "matchTaskRegex line = Some (i, m, c, r)"
    by (cases "matchTaskRegex line") (auto simp: parseTaskLine_None_iff)
  from taskLine_of_match [OF this] show ?thesis by blast
qed

section \<open>Properties of \<open>parseTaskLine\<close>\<close>

text \<open>
  C3. For every line that \<open>parseTaskLine\<close> recognizes, the status is a function of the
  status symbol alone, the table of the specification: \<open>x\<close> or \<open>X\<close> complete, \<open>-\<close>
  cancelled, \<open>/\<close> in progress, space, \<open>>\<close> or \<open><\<close> incomplete, any other character
  \<open>non_task\<close>. A line of the task shape with any character \<open>c\<close> in its checkbox is
  returned as a task with that symbol, whatever \<open>c\<close> is; it is not dropped.
\<close>

theorem parseTaskLine_status:
  "(\<forall>t. parseTaskLine line fp ln = Some t \<longrightarrow> status t = spec_status (statusSymbol t)) \<and>
   (\<forall>c. taskShape line c \<longrightarrow>
      (\<exists>t. parseTaskLine line fp ln = Some t \<and> statusSymbol t = c \<and> status t = spec_status c))"
proof (intro conjI allI impI)
  fix t assume "parseTaskLine line fp ln = Some t"
  from parseTaskLine_SomeD [OF this] show "status t = spec_status (statusSymbol t)" by auto
next
  fix c assume "taskShape line c"
  from matchTaskRegex_complete [OF this] obtain i m r
    where m: "matchTaskRegex line = Some (i, m, c, r)" by blast
  then have "parseTaskLine line fp ln \<noteq> None" by (simp add: parseTaskLine_None_iff)
  then obtain t where t: "parseTaskLine line fp ln = Some t" by auto
  from parseTaskLine_SomeD [OF t] m t
  show "\<exists>t. parseTaskLine line fp ln = Some t \<and> statusSymbol t = c \<and> status t = spec_status c"
    by auto
qed

text \<open>The line \<open>- [?] Question task (non-task)\<close> of the repository's tests.\<close>

lemma taskShape_question:
  "taskShape (js ''- [?] Question task (non-task)'') (js ''?'')"
  unfolding taskShape_def
  apply (rule exI [of _ "[]"], rule exI [of _ "js ''-''"], rule exI [of _ "js '' ''"],
         rule exI [of _ "js '' Question task (non-task)''"])
  apply (simp add: js_simps isListMarker_def isCodePoint_def isLineTerminator_def)
  done

theorem parseTaskLine_status_witness:
  "map_option status
     (parseTaskLine (js ''- [?] Question task (non-task)'') (js ''/test/status-file.md'') 6)
   = Some Non_task"
  using parseTaskLine_status [of "js ''- [?] Question task (non-task)''"
      "js ''/test/status-file.md''" 6] taskShape_question
  by (auto simp: spec_status_def js_simps)

text \<open>
  C8. A line that does not have the shape indentation, list marker, spaces, checkbox
  makes \<open>parseTaskLine\<close> return \<open>null\<close>, the value \<open>None\<close> of the model; no task is
  produced and no error is raised.
\<close>

theorem parseTaskLine_no_match:
  "\<not> (\<exists>c. taskShape line c) \<Longrightarrow> parseTaskLine line fp ln = None"
proof (rule ccontr)
  assume n: "\<not> (\<exists>c. taskShape line c)" and "parseTaskLine line fp ln \<noteq> None"
  then obtain i m c r where "matchTaskRegex line = Some (i, m, c, r)"
    by (cases "matchTaskRegex line") (auto simp: parseTaskLine_None_iff)
  from matchTaskRegex_sound [OF this] n show False by blast
qed

text \<open>A heading of the sample file is not a task line.\<close>

lemma matchTaskRegex_heading:
  "matchTaskRegex (js ''## Incomplete Tasks'') = None"
  by (simp add: parse_defs char_class_defs js_simps)

lemma no_taskShape_heading:
  "\<not> (\<exists>c. taskShape (js ''## Incomplete Tasks'') c)"
  using matchTaskRegex_complete [of "js ''## Incomplete Tasks''"] matchTaskRegex_heading
  by auto

theorem parseTaskLine_no_match_witness:
  "\<not> (\<exists>c. taskShape (js ''## Incomplete Tasks'') c) \<and>
   parseTaskLine (js ''## Incomplete Tasks'') (js ''sample.md'') 2 = None"
  using parseTaskLine_no_match [OF no_taskShape_heading] no_taskShape_heading by simp

text \<open>
  C9. Round trip: when \<open>parseTaskLine\<close> returns a task for a line, the field
  \<open>originalMarkdown\<close> of the task is that line, unchanged, and \<open>taskToString\<close> of the task
  gives the line back.
\<close>

theorem parseTaskLine_roundtrip:
  "parseTaskLine line fp ln = Some t \<Longrightarrow> originalMarkdown t = line \<and> taskToString t = line"
  using parseTaskLine_SomeD [of line fp ln t] by (auto simp: taskToString_def)

lemma parseTaskLine_question:
  "parseTaskLine (js ''- [?] Question task (non-task)'') (js ''/test/status-file.md'') 6 \<noteq> None"
  using matchTaskRegex_complete [OF taskShape_question]
  by (auto simp: parseTaskLine_None_iff)

theorem parseTaskLine_roundtrip_witness:
  "map_option originalMarkdown
     (parseTaskLine (js ''- [?] Question task (non-task)'') (js ''/test/status-file.md'') 6)
     = Some (js ''- [?] Question task (non-task)'') \<and>
   map_option taskToString
     (parseTaskLine (js ''- [?] Question task (non-task)'') (js ''/test/status-file.md'') 6)
     = Some (js ''- [?] Question task (non-task)'')"
  using parseTaskLine_question
    parseTaskLine_roundtrip [of "js ''- [?] Question task (non-task)''"
      "js ''/test/status-file.md''" 6]
  by auto

section \<open>Properties of \<open>applyFilter\<close>\<close>

subsection \<open>The order of the connectives\<close>

text \<open>
  The filter is lower-cased before the tests, so the tests for \<open>' AND '\<close> and \<open>' OR '\<close>
  never hold, and \<open>applyFilter\<close> goes by the first of \<open>' and '\<close>, \<open>' or '\<close> and \<open>'not '\<close>
  that applies.
\<close>

lemma startsWith_set: "startsWith s p \<Longrightarrow> set p \<subseteq> set s"
  by (induction s p rule: startsWith.induct) auto

lemma includes_js_set: "includes_js s sub \<Longrightarrow> set sub \<subseteq> set s"
proof (induction s)
  case Nil
  then show ?case by (cases sub) auto
next
  case (Cons c cs)
  then show ?case using startsWith_set [of "c # cs" sub] by auto
qed

lemma set_trim: "set (trim s) \<subseteq> set s"
  by (auto simp: trim_def dest!: set_dropWhileD)

lemma lowered_no_capital:
  "c \<in> set (trim (toLowerCase s)) \<Longrightarrow> \<not> (65 \<le> c \<and> c \<le> 90)"
  using set_trim [of "toLowerCase s"] by (auto simp: toLowerCase_def lowerChar_def)

lemma no_AND: "\<not> includes_js (trim (toLowerCase s)) (js '' AND '')"
proof
  assume "includes_js (trim (toLowerCase s)) (js '' AND '')"
  from includes_js_set [OF this] have "65 \<in> set (trim (toLowerCase s))"
    by (simp add: js_simps)
  from lowered_no_capital [OF this] show False by simp
qed

lemma no_OR: "\<not> includes_js (trim (toLowerCase s)) (js '' OR '')"
proof
  assume "includes_js (trim (toLowerCase s)) (js '' OR '')"
  from includes_js_set [OF this] have "79 \<in> set (trim (toLowerCase s))"
    by (simp add: js_simps)
  from lowered_no_capital [OF this] show False by simp
qed

text \<open>
  \<open>startsWith\<close> and \<open>includes\<close> are the prefix and the contiguous-sublist relations; the
  pieces of a split and the trimmed string are contiguous sublists of the string.
\<close>

lemma startsWith_iff_prefix: "startsWith s p \<longleftrightarrow> prefix p s"
  by (induction s p rule: startsWith.induct) auto

lemma includes_js_iff_sublist: "includes_js s sub \<longleftrightarrow> sublist sub s"
proof (induction s)
  case Nil
  show ?case by (cases sub) auto
next
  case (Cons c cs)
  then show ?case by (simp add: sublist_Cons_right startsWith_iff_prefix del: startsWith.simps)
qed




lemma applyFilter_and:
  assumes "trim (toLowerCase f) = flt" "includes_js flt (js '' and '')"
  shows "applyFilter today t f =
           every_js (\<lambda>part. applyFilter today t (trim part)) (split_js flt (js '' and ''))"
  using assms no_AND [of f] no_OR [of f]
  by (subst applyFilter.simps) (simp add: Let_def)

lemma applyFilter_or:
  assumes "trim (toLowerCase f) = flt" "\<not> includes_js flt (js '' and '')"
    "includes_js flt (js '' or '')"
  shows "applyFilter today t f =
           some_js (\<lambda>part. applyFilter today t (trim part)) (split_js flt (js '' or ''))"
  using assms no_AND [of f] no_OR [of f]
  by (subst applyFilter.simps) (simp add: Let_def)

lemma applyFilter_not:
  assumes "trim (toLowerCase f) = flt" "\<not> includes_js flt (js '' and '')"
    "\<not> includes_js flt (js '' or '')" "startsWith flt (js ''not '')"
  shows "applyFilter today t f =
           (case applyFilter today t (drop 4 flt) of Inl e \<Rightarrow> Inl e | Inr b \<Rightarrow> Inr (\<not> b))"
  using assms no_AND [of f] no_OR [of f]
  by (subst applyFilter.simps) (simp add: Let_def)

lemma applyFilter_predicate:
  assumes "trim (toLowerCase f) = flt" "\<not> includes_js flt (js '' and '')"
    "\<not> includes_js flt (js '' or '')" "\<not> startsWith flt (js ''not '')"
  shows "applyFilter today t f = applyPredicate today t flt"
  using assms no_AND [of f] no_OR [of f]
  by (subst applyFilter.simps) (simp add: Let_def)

lemmas string_eval =
  js_simps trim_def toLowerCase_def lowerChar_def isWhiteSpace_def isLineTerminator_def

lemma applyFilter_done: "applyFilter today t (js ''done'') = Inr (status t = Complete)"
proof -
  have "applyFilter today t (js ''done'') = applyPredicate today t (js ''done'')"
    by (rule applyFilter_predicate) (simp_all add: string_eval)
  then show ?thesis by (simp add: applyPredicate_def)
qed

lemma applyFilter_not_done_eq:
  "applyFilter today t (js ''not done'') = Inr (status t \<noteq> Complete)"
proof -
  have "applyFilter today t (js ''not done'') =
          (case applyFilter today t (drop 4 (js ''not done'')) of
             Inl e \<Rightarrow> Inl e | Inr b \<Rightarrow> Inr (\<not> b))"
    by (rule applyFilter_not) (simp_all add: string_eval)
  also have "drop 4 (js ''not done'') = js ''done''" by (simp add: js_simps)
  finally show ?thesis by (simp add: applyFilter_done)
qed

subsection \<open>No access past the end of a split\<close>

lemma startsWith_append: "startsWith p sep \<Longrightarrow> startsWith (p @ r) sep"
  by (induction p sep rule: startsWith.induct) auto

lemma includes_js_append: "includes_js p sep \<Longrightarrow> includes_js (p @ r) sep"
proof (induction p)
  case Nil
  then show ?case by (cases sep) (auto, cases r, auto)
next
  case (Cons c cs)
  then show ?case using startsWith_append [of "c # cs" sep r] by auto
qed

lemma startsWith_eq_append: "startsWith s p \<Longrightarrow> \<exists>r. s = p @ r"
  by (induction s p rule: startsWith.induct) auto

lemma startsWith_includes:
  "startsWith s p \<Longrightarrow> includes_js p sep \<Longrightarrow> includes_js s sep"
  using startsWith_eq_append [of s p] includes_js_append [of p sep] by auto

lemma split_go_nonempty: "split_go sep acc s \<noteq> []"
  by (induction sep acc s rule: split_go.induct) (auto simp del: startsWith.simps)

lemma split_go_two:
  "sep \<noteq> [] \<Longrightarrow> includes_js s sep \<Longrightarrow> \<exists>p0 p1 ps. split_go sep acc s = p0 # p1 # ps"
proof (induction sep acc s rule: split_go.induct)
  case (1 sep acc)
  then show ?case by (cases sep) auto
next
  case (2 sep acc c cs)
  show ?case
  proof (cases "startsWith (c # cs) sep")
    case True
    have "split_go sep [] (drop (length sep) (c # cs)) \<noteq> []"
      by (rule split_go_nonempty)
    then obtain q qs where "split_go sep [] (drop (length sep) (c # cs)) = q # qs"
      by (cases "split_go sep [] (drop (length sep) (c # cs))") auto
    with True 2(3) show ?thesis by (simp del: startsWith.simps)
  next
    case False
    with 2(4) have "includes_js cs sep" by simp
    with 2(2) [OF _ 2(3)] False show ?thesis by (simp del: startsWith.simps)
  qed
qed

lemma trimAt1_split:
  assumes "sep \<noteq> []" "includes_js s sep"
  shows "\<exists>p. trimAt1 (split_js s sep) = Inr p"
  using split_go_two [OF assms, of "[]"] assms(1)
  by (auto simp: trimAt1_def split_js_def)

lemma trimAt1_startsWith:
  assumes "startsWith s p" "includes_js p sep" "sep \<noteq> []"
  shows "\<exists>q. trimAt1 (split_js s sep) = Inr q"
  using trimAt1_split [OF assms(3) startsWith_includes [OF assms(1,2)]] .

lemma priorityFilter_total: "\<exists>r. priorityFilter t flt = Inr r"
proof (cases "startsWith flt (js ''priority is'')")
  case True
  from trimAt1_startsWith [OF True, of "js ''priority is''"]
  obtain q where "trimAt1 (split_js flt (js ''priority is'')) = Inr q"
    by (auto simp: js_simps)
  with True show ?thesis by (simp add: priorityFilter_def)
next
  case False
  then show ?thesis by (simp add: priorityFilter_def)
qed

lemma isl_trimAt1:
  assumes "startsWith s p" "includes_js p sep" "sep \<noteq> []"
  shows "\<not> isl (trimAt1 (split_js s sep))"
  using trimAt1_startsWith [OF assms] by auto

lemma not_isl_if:
  "(c \<Longrightarrow> \<not> isl a) \<Longrightarrow> (\<not> c \<Longrightarrow> \<not> isl b) \<Longrightarrow> \<not> isl (if c then a else b)"
  by simp

lemma not_isl_case_option:
  "(x = None \<Longrightarrow> \<not> isl a) \<Longrightarrow> (\<And>v. x = Some v \<Longrightarrow> \<not> isl (f v))
     \<Longrightarrow> \<not> isl (case x of None \<Rightarrow> a | Some v \<Rightarrow> f v)"
  by (cases x) auto

lemma not_isl_case_sum:
  "\<not> isl x \<Longrightarrow> (\<And>v. x = Inr v \<Longrightarrow> \<not> isl (g v)) \<Longrightarrow> \<not> isl (case_sum Inl g x)"
  by (cases x) auto

lemma not_isl_Inr: "\<not> isl (Inr b)"
  by simp

lemma applyPredicate_not_isl: "\<not> isl (applyPredicate today t flt)"
proof -
  have 1: "startsWith flt (js ''tag includes '') \<Longrightarrow>
             \<not> isl (trimAt1 (split_js flt (js ''tag includes '')))"
    by (rule isl_trimAt1 [where p = "js ''tag includes ''"]) (simp_all add: js_simps)
  have 2: "startsWith flt (js ''path includes'') \<Longrightarrow>
             \<not> isl (trimAt1 (split_js flt (js ''includes'')))"
    by (rule isl_trimAt1 [where p = "js ''path includes''"]) (simp_all add: js_simps)
  have 3: "startsWith flt (js ''path does not include'') \<Longrightarrow>
             \<not> isl (trimAt1 (split_js flt (js ''does not include'')))"
    by (rule isl_trimAt1 [where p = "js ''path does not include''"])
       (simp_all add: js_simps)
  have 4: "startsWith flt (js ''description includes'') \<Longrightarrow>
             \<not> isl (trimAt1 (split_js flt (js ''includes'')))"
    by (rule isl_trimAt1 [where p = "js ''description includes''"])
       (simp_all add: js_simps)
  have 5: "startsWith flt (js ''description does not include'') \<Longrightarrow>
             \<not> isl (trimAt1 (split_js flt (js ''does not include'')))"
    by (rule isl_trimAt1 [where p = "js ''description does not include''"])
       (simp_all add: js_simps)
  from priorityFilter_total [of t flt] have 6: "\<not> isl (priorityFilter t flt)" by auto
  show ?thesis
    unfolding applyPredicate_def Let_def
    by (intro not_isl_if not_isl_case_option not_isl_case_sum not_isl_Inr 1 2 3 4 5 6)
qed

lemma every_js_total:
  "(\<And>x. x \<in> set xs \<Longrightarrow> \<not> isl (f x)) \<Longrightarrow> \<not> isl (every_js f xs)"
proof (induction xs)
  case Nil
  show ?case by simp
next
  case (Cons a xs)
  have a: "\<not> isl (f a)" by (rule Cons.prems) simp
  have r: "\<not> isl (every_js f xs)" by (rule Cons.IH) (rule Cons.prems, simp)
  from a r show ?case by (cases "f a") auto
qed

lemma some_js_total:
  "(\<And>x. x \<in> set xs \<Longrightarrow> \<not> isl (f x)) \<Longrightarrow> \<not> isl (some_js f xs)"
proof (induction xs)
  case Nil
  show ?case by simp
next
  case (Cons a xs)
  have a: "\<not> isl (f a)" by (rule Cons.prems) simp
  have r: "\<not> isl (some_js f xs)" by (rule Cons.IH) (rule Cons.prems, simp)
  from a r show ?case by (cases "f a") auto
qed

lemma not_isl_iff: "\<not> isl r \<longleftrightarrow> (\<exists>b. r = Inr b)"
  by (cases r) auto

lemma applyFilter_not_isl: "\<not> isl (applyFilter today t f)"
proof (induction today t f rule: applyFilter.induct)
  case (1 today t filter0)
  define flt where "flt = trim (toLowerCase filter0)"
  have flt: "trim (toLowerCase filter0) = flt" by (simp add: flt_def)
  note nA = no_AND [of filter0] and nO = no_OR [of filter0]
  consider (a) "includes_js flt (js '' and '')"
    | (b) "\<not> includes_js flt (js '' and '')" "includes_js flt (js '' or '')"
    | (c) "\<not> includes_js flt (js '' and '')" "\<not> includes_js flt (js '' or '')"
          "startsWith flt (js ''not '')"
    | (d) "\<not> includes_js flt (js '' and '')" "\<not> includes_js flt (js '' or '')"
          "\<not> startsWith flt (js ''not '')"
    by blast
  then show ?case
  proof cases
    case a
    have "\<not> isl (every_js (\<lambda>part. applyFilter today t (trim part))
                 (split_js flt (js '' and '')))"
      by (rule every_js_total) (rule "1.IH"(3) [OF flt [symmetric]], use a nA nO flt in auto)
    then show ?thesis by (simp add: applyFilter_and [OF flt a])
  next
    case b
    have "\<not> isl (some_js (\<lambda>part. applyFilter today t (trim part))
                 (split_js flt (js '' or '')))"
      by (rule some_js_total) (rule "1.IH"(4) [OF flt [symmetric]], use b nA nO flt in auto)
    then show ?thesis by (simp add: applyFilter_or [OF flt b])
  next
    case c
    have "\<not> isl (applyFilter today t (drop 4 flt))"
      by (rule "1.IH"(5) [OF flt [symmetric]]) (use c nA nO flt in auto)
    then show ?thesis by (auto simp: applyFilter_not [OF flt c] split: sum.splits)
  next
    case d
    then show ?thesis
      using applyPredicate_not_isl [of today t flt]
      by (simp add: applyFilter_predicate [OF flt d])
  qed
qed

lemma applyFilter_total: "\<exists>b. applyFilter today t f = Inr b"
  using applyFilter_not_isl [of today t f] by (simp add: not_isl_iff)

subsection \<open>The last line: a search in the description\<close>

text \<open>
  The three expressions of the due-date block match exactly the parametrized forms of
  the specification.
\<close>

lemma isDate_head: "isDate d \<Longrightarrow> \<exists>x xs. d = x # xs \<and> \<not> isWhiteSpace x"
  by (cases d)
     (auto simp: isDate_def isDigit_def isWhiteSpace_def isLineTerminator_def split: list.splits)

lemma skipWhiteSpace1_SomeD:
  "skipWhiteSpace1 s = Some r \<Longrightarrow> \<exists>ws. s = ws @ r \<and> isWhiteSpaces ws"
proof -
  assume a: "skipWhiteSpace1 s = Some r"
  then obtain c cs where s: "s = c # cs" "isWhiteSpace c" "r = dropWhile isWhiteSpace s"
    by (cases s) (auto simp: skipWhiteSpace1_def split: if_splits)
  have "s = takeWhile isWhiteSpace s @ r" using s(3) by simp
  moreover have "isWhiteSpaces (takeWhile isWhiteSpace s)"
    using s(1,2) by (auto simp: isWhiteSpaces_def dest: set_takeWhileD)
  ultimately show ?thesis by blast
qed

lemma skipWhiteSpace1_append:
  assumes "isWhiteSpaces ws" "r = x # xs" "\<not> isWhiteSpace x"
  shows "skipWhiteSpace1 (ws @ r) = Some r"
proof -
  from assms(1) obtain c cs where ws: "ws = c # cs" "isWhiteSpace c"
    by (cases ws) (auto simp: isWhiteSpaces_def)
  have "dropWhile isWhiteSpace (ws @ r) = r"
    using assms by (simp add: dropWhile_append2 isWhiteSpaces_def)
  with ws show ?thesis by (simp add: skipWhiteSpace1_def)
qed

lemma startsWith_prefix_append: "startsWith (p @ r) p"
  by (induction p) auto

lemma startsWith_dropD: "startsWith s p \<Longrightarrow> s = p @ drop (length p) s"
  by (induction s p rule: startsWith.induct) auto

lemma matchExactDate_Some: "matchExactDate s = Some d \<longleftrightarrow> (d = s \<and> isDate s)"
  by (auto simp: matchExactDate_def)

lemma matchDueWord_iff:
  assumes "word = x # xs" "\<not> isWhiteSpace x"
  shows "matchDueWord word flt \<noteq> None \<longleftrightarrow> specDueWord word flt"
proof
  assume "matchDueWord word flt \<noteq> None"
  then obtain d where d: "matchDueWord word flt = Some d" by blast
  then have 1: "startsWith flt (js ''due'')"
    by (auto simp: matchDueWord_def split: if_splits)
  with d obtain r where r: "skipWhiteSpace1 (drop 3 flt) = Some r"
    by (auto simp: matchDueWord_def split: option.splits)
  with d 1 have 2: "startsWith r word"
    by (auto simp: matchDueWord_def split: if_splits)
  with d 1 r obtain r' where r': "skipWhiteSpace1 (drop (length word) r) = Some r'"
    by (auto simp: matchDueWord_def split: option.splits)
  with d 1 r 2 have 3: "isDate r'"
    by (auto simp: matchDueWord_def matchExactDate_def split: if_splits)
  from startsWith_dropD [OF 1] have "flt = js ''due'' @ drop 3 flt"
    by (simp add: js_simps numeral_3_eq_3)
  moreover from skipWhiteSpace1_SomeD [OF r] obtain ws where
    "drop 3 flt = ws @ r" "isWhiteSpaces ws" by blast
  moreover from startsWith_dropD [OF 2] have "r = word @ drop (length word) r" .
  moreover from skipWhiteSpace1_SomeD [OF r'] obtain ws' where
    "drop (length word) r = ws' @ r'" "isWhiteSpaces ws'" by blast
  ultimately have "flt = js ''due'' @ ws @ word @ ws' @ r'" "isWhiteSpaces ws" "isWhiteSpaces ws'"
    by simp_all
  with 3 show "specDueWord word flt" unfolding specDueWord_def by blast
next
  assume "specDueWord word flt"
  then obtain ws ws' d where
    f: "flt = js ''due'' @ ws @ word @ ws' @ d" and w: "isWhiteSpaces ws" "isWhiteSpaces ws'"
    and d: "isDate d"
    unfolding specDueWord_def by blast
  from isDate_head [OF d] obtain y ys where y: "d = y # ys" "\<not> isWhiteSpace y" by blast
  have 1: "startsWith flt (js ''due'')" unfolding f by (rule startsWith_prefix_append)
  have 2: "drop 3 flt = ws @ (word @ ws' @ d)" unfolding f by (simp add: js_simps)
  have 3: "skipWhiteSpace1 (ws @ (word @ ws' @ d)) = Some (word @ ws' @ d)"
    using skipWhiteSpace1_append [OF w(1), of "word @ ws' @ d" x "xs @ ws' @ d"] assms by simp
  have 4: "startsWith (word @ ws' @ d) word" by (rule startsWith_prefix_append)
  have 5: "skipWhiteSpace1 (ws' @ d) = Some d"
    using skipWhiteSpace1_append [OF w(2) y] .
  show "matchDueWord word flt \<noteq> None"
    unfolding matchDueWord_def using 1 2 3 4 5 d by (simp add: matchExactDate_def)
qed

lemma matchDueOn_iff: "matchDueOn flt \<noteq> None \<longleftrightarrow> specDueDate flt"
proof
  assume "matchDueOn flt \<noteq> None"
  then obtain d where d: "matchDueOn flt = Some d" by blast
  then have 1: "startsWith flt (js ''due'')"
    by (auto simp: matchDueOn_def split: if_splits)
  with d obtain r where r: "skipWhiteSpace1 (drop 3 flt) = Some r"
    by (auto simp: matchDueOn_def split: option.splits)
  from startsWith_dropD [OF 1] have f: "flt = js ''due'' @ drop 3 flt"
    by (simp add: js_simps numeral_3_eq_3)
  from skipWhiteSpace1_SomeD [OF r] obtain ws where
    ws: "drop 3 flt = ws @ r" "isWhiteSpaces ws" by blast
  from d 1 r consider (plain) "isDate r"
    | (on) r' where "startsWith r (js ''on'')" "skipWhiteSpace1 (drop 2 r) = Some r'" "isDate r'"
    by (auto simp: matchDueOn_def matchExactDate_def split: if_splits option.splits)
  then show "specDueDate flt"
  proof cases
    case plain
    from f ws have "flt = js ''due'' @ ws @ r" by simp
    with ws(2) plain show ?thesis unfolding specDueDate_def by blast
  next
    case on
    from startsWith_dropD [OF on(1)] have "r = js ''on'' @ drop 2 r"
      by (simp add: js_simps numeral_2_eq_2)
    moreover from skipWhiteSpace1_SomeD [OF on(2)] obtain ws' where
      "drop 2 r = ws' @ r'" "isWhiteSpaces ws'" by blast
    ultimately have "flt = js ''due'' @ ws @ js ''on'' @ ws' @ r'" "isWhiteSpaces ws'"
      using f ws by simp_all
    with ws(2) on(3) show ?thesis unfolding specDueDate_def by blast
  qed
next
  assume "specDueDate flt"
  then consider (plain) ws d where "flt = js ''due'' @ ws @ d" "isWhiteSpaces ws" "isDate d"
    | (on) ws ws' d where "flt = js ''due'' @ ws @ js ''on'' @ ws' @ d"
        "isWhiteSpaces ws" "isWhiteSpaces ws'" "isDate d"
    unfolding specDueDate_def by blast
  then show "matchDueOn flt \<noteq> None"
  proof cases
    case plain
    from isDate_head [OF plain(3)] obtain y ys where y: "d = y # ys" "\<not> isWhiteSpace y" by blast
    have 1: "startsWith flt (js ''due'')" unfolding plain(1) by (rule startsWith_prefix_append)
    have 2: "drop 3 flt = ws @ d" unfolding plain(1) by (simp add: js_simps)
    have 3: "skipWhiteSpace1 (ws @ d) = Some d"
      using skipWhiteSpace1_append [OF plain(2) y] .
    show ?thesis
      unfolding matchDueOn_def using 1 2 3 plain(3)
      by (simp add: matchExactDate_def split: option.splits)
  next
    case on
    from isDate_head [OF on(4)] obtain y ys where y: "d = y # ys" "\<not> isWhiteSpace y" by blast
    have 1: "startsWith flt (js ''due'')" unfolding on(1) by (rule startsWith_prefix_append)
    have 2: "drop 3 flt = ws @ (js ''on'' @ ws' @ d)" unfolding on(1) by (simp add: js_simps)
    have 3: "skipWhiteSpace1 (ws @ (js ''on'' @ ws' @ d)) = Some (js ''on'' @ ws' @ d)"
      using skipWhiteSpace1_append [OF on(2), of "js ''on'' @ ws' @ d" 111 "110 # ws' @ d"]
      by (simp add: js_simps isWhiteSpace_def isLineTerminator_def)
    have 4: "startsWith (js ''on'' @ ws' @ d) (js ''on'')" by (rule startsWith_prefix_append)
    have 5: "drop 2 (js ''on'' @ ws' @ d) = ws' @ d" by (simp add: js_simps)
    have 6: "skipWhiteSpace1 (ws' @ d) = Some d"
      using skipWhiteSpace1_append [OF on(3) y] .
    show ?thesis
      unfolding matchDueOn_def using 1 2 3 4 5 6 on(4)
      by (simp add: matchExactDate_def)
  qed
qed

text \<open>
  The priority block reads the second piece of the split at \<open>priority is\<close>; it holds one
  of the six words exactly for the clauses of the form that the specification gives.
\<close>

lemma split_go_hd:
  "sep \<noteq> [] \<Longrightarrow>
     \<exists>u. hd (split_go sep acc s) = rev acc @ u \<and> (s = u \<or> (\<exists>v. s = u @ sep @ v))"
proof (induction sep acc s rule: split_go.induct)
  case (1 sep acc)
  show ?case by simp
next
  case (2 sep acc c cs)
  show ?case
  proof (cases "startsWith (c # cs) sep")
    case True
    from startsWith_dropD [OF True] have "\<exists>v. c # cs = [] @ sep @ v" by auto
    with True 2(3) show ?thesis
      by (intro exI [where x = "[]"]) (simp del: startsWith.simps)
  next
    case False
    with 2(2) [OF _ 2(3)] obtain u where
      u: "hd (split_go sep (c # acc) cs) = rev (c # acc) @ u"
         "cs = u \<or> (\<exists>v. cs = u @ sep @ v)"
      by auto
    from False u show ?thesis
      by (intro exI [where x = "c # u"]) (auto simp del: startsWith.simps)
  qed
qed

lemma split_go_skip:
  "x \<notin> set u \<Longrightarrow> split_go (x # xs) acc (u @ v) = split_go (x # xs) (rev u @ acc) v"
  by (induction u arbitrary: acc) auto

lemma split_go_skip_hd:
  assumes "x \<notin> set u" "v = [] \<or> prefix (x # xs) v"
  shows "hd (split_go (x # xs) [] (u @ v)) = u"
proof -
  have "hd (split_go (x # xs) (rev u) v) = u"
  proof (cases v)
    case Nil
    then show ?thesis by simp
  next
    case (Cons a w)
    with assms(2) have "startsWith v (x # xs)" by (simp add: startsWith_iff_prefix)
    with Cons show ?thesis by (simp del: startsWith.simps)
  qed
  with split_go_skip [OF assms(1), of xs "[]" v] show ?thesis by simp
qed

lemma trimAt1_split_prefix:
  "sep \<noteq> [] \<Longrightarrow> trimAt1 (split_js (sep @ r) sep) = Inr (trim (hd (split_go sep [] r)))"
proof -
  assume sep: "sep \<noteq> []"
  then obtain x xs where x: "sep = x # xs" by (cases sep) auto
  have "split_go sep [] (sep @ r) = [] # split_go sep [] r"
    using startsWith_prefix_append [of sep r] sep
    by (simp add: x del: startsWith.simps)
  moreover obtain y ys where "split_go sep [] r = y # ys"
    using split_go_nonempty [of sep "[]" r] by (cases "split_go sep [] r") auto
  ultimately show ?thesis using sep by (simp add: trimAt1_def split_js_def)
qed

lemma trim_decompose:
  "\<exists>ws ws'. u = ws @ trim u @ ws' \<and> (\<forall>x \<in> set ws. isWhiteSpace x) \<and>
              (\<forall>x \<in> set ws'. isWhiteSpace x)"
proof -
  define d where "d = dropWhile isWhiteSpace u"
  have u: "u = takeWhile isWhiteSpace u @ d" by (simp add: d_def)
  have "d = rev (rev d)" by simp
  also have "\<dots> = rev (takeWhile isWhiteSpace (rev d) @ dropWhile isWhiteSpace (rev d))"
    by (simp only: takeWhile_dropWhile_id)
  also have "\<dots> = rev (dropWhile isWhiteSpace (rev d)) @ rev (takeWhile isWhiteSpace (rev d))"
    by (rule rev_append)
  finally have d: "d = trim u @ rev (takeWhile isWhiteSpace (rev d))"
    by (simp only: trim_def d_def)
  have "u = takeWhile isWhiteSpace u @ trim u @ rev (takeWhile isWhiteSpace (rev d))"
    using u d by simp
  moreover have "\<forall>x \<in> set (takeWhile isWhiteSpace u). isWhiteSpace x"
    by (auto dest: set_takeWhileD)
  moreover have "\<forall>x \<in> set (rev (takeWhile isWhiteSpace (rev d))). isWhiteSpace x"
    by (auto dest: set_takeWhileD)
  ultimately show ?thesis by blast
qed

lemma trim_padded:
  assumes "\<forall>x \<in> set ws. isWhiteSpace x" "\<forall>x \<in> set ws'. isWhiteSpace x"
    "l \<noteq> []" "\<not> isWhiteSpace (hd l)" "\<not> isWhiteSpace (last l)"
  shows "trim (ws @ l @ ws') = l"
proof -
  from assms(3) obtain h tl where l: "l = h # tl" by (cases l) auto
  from assms(3) obtain b e where r: "rev l = e # b" by (cases "rev l") auto
  with assms(3) have e: "e = last l" by (metis last_rev list.sel(1) rev_rev_ident hd_rev)
  have 1: "dropWhile isWhiteSpace (ws @ l @ ws') = l @ ws'"
    using assms(1,4) by (simp add: dropWhile_append2 l)
  have "dropWhile isWhiteSpace (rev ws' @ rev l) = dropWhile isWhiteSpace (rev l)"
    by (rule dropWhile_append2) (use assms(2) in auto)
  also have "\<dots> = rev l" using assms(5) e by (simp add: r)
  finally have 2: "dropWhile isWhiteSpace (rev ws' @ rev l) = rev l" .
  show ?thesis by (simp add: trim_def 1 2)
qed

lemma level_facts:
  assumes "lvl \<in> set (map js [''highest'', ''high'', ''medium'', ''low'', ''lowest'', ''none''])"
  shows "lvl \<noteq> []" "\<not> isWhiteSpace (hd lvl)" "\<not> isWhiteSpace (last lvl)" "112 \<notin> set lvl"
  using assms by (auto simp: js_simps isWhiteSpace_def isLineTerminator_def)

lemma specPriority_iff:
  "specPriority flt \<longleftrightarrow>
     (startsWith flt (js ''priority is'') \<and>
      (case trimAt1 (split_js flt (js ''priority is'')) of
         Inl e \<Rightarrow> False
       | Inr p \<Rightarrow> p \<in> set (map js [''highest'', ''high'', ''medium'', ''low'',
                                       ''lowest'', ''none''])))"
  (is "_ \<longleftrightarrow> (_ \<and> ?code)")
proof
  assume "specPriority flt"
  then obtain ws lvl ws' v where
    flt: "flt = js ''priority is'' @ ws @ lvl @ ws' @ v"
    and lvl: "lvl \<in> set (map js [''highest'', ''high'', ''medium'', ''low'', ''lowest'', ''none''])"
    and ws: "\<forall>x \<in> set ws. isWhiteSpace x" "\<forall>x \<in> set ws'. isWhiteSpace x"
    and v: "v = [] \<or> prefix (js ''priority is'') v"
    unfolding specPriority_def by blast
  have p: "js ''priority is'' = 112 # js ''riority is''" by (simp add: js_simps)
  have nw: "\<not> isWhiteSpace 112" by (simp add: isWhiteSpace_def isLineTerminator_def)
  from ws nw level_facts(4) [OF lvl] have no: "112 \<notin> set (ws @ lvl @ ws')" by auto
  have "hd (split_go (js ''priority is'') [] ((ws @ lvl @ ws') @ v)) = ws @ lvl @ ws'"
    unfolding p by (rule split_go_skip_hd [OF no]) (use v p in simp)
  then have "trimAt1 (split_js flt (js ''priority is'')) = Inr (trim (ws @ lvl @ ws'))"
    using trimAt1_split_prefix [of "js ''priority is''" "ws @ lvl @ ws' @ v"]
    by (simp add: flt js_nonempty p)
  also have "trim (ws @ lvl @ ws') = lvl"
    by (rule trim_padded [OF ws level_facts(1,2,3) [OF lvl]])
  finally have "trimAt1 (split_js flt (js ''priority is'')) = Inr lvl" .
  with lvl have c: "?code" by (simp only: sum.case)
  have "startsWith flt (js ''priority is'')"
    unfolding flt by (rule startsWith_prefix_append)
  with c show "startsWith flt (js ''priority is'') \<and> ?code" by (rule conjI [rotated])
next
  assume a: "startsWith flt (js ''priority is'') \<and> ?code"
  then obtain r where flt: "flt = js ''priority is'' @ r"
    using startsWith_eq_append by blast
  have t: "trimAt1 (split_js flt (js ''priority is'')) =
             Inr (trim (hd (split_go (js ''priority is'') [] r)))"
    unfolding flt by (rule trimAt1_split_prefix) (simp add: js_simps)
  from split_go_hd [of "js ''priority is''" "[]" r] obtain u where
    u: "hd (split_go (js ''priority is'') [] r) = u"
       "r = u \<or> (\<exists>v. r = u @ js ''priority is'' @ v)"
    by (auto simp: js_simps)
  from a t u(1) have lvl:
    "trim u \<in> set (map js [''highest'', ''high'', ''medium'', ''low'', ''lowest'', ''none''])"
    by (simp only: sum.case)
  from trim_decompose [of u] obtain ws ws' where
    w: "u = ws @ trim u @ ws'" "\<forall>x \<in> set ws. isWhiteSpace x" "\<forall>x \<in> set ws'. isWhiteSpace x"
    by blast
  from u(2) obtain v where v: "r = u @ v" "v = [] \<or> prefix (js ''priority is'') v"
    by auto
  have "flt = js ''priority is'' @ ws @ trim u @ ws' @ v"
    using flt v(1) w(1) by (metis append.assoc)
  with lvl w(2,3) v(2) show "specPriority flt"
    unfolding specPriority_def by blast
qed

text \<open>The connectives and the predicates in the form in which the code tests them.\<close>

lemma isConnective_code:
  "isConnective flt \<longleftrightarrow>
     (includes_js flt (js '' AND '') \<or> includes_js flt (js '' OR '') \<or>
      includes_js flt (js '' and '') \<or> includes_js flt (js '' or '') \<or>
      startsWith flt (js ''not ''))"
  by (simp add: isConnective_def includes_js_iff_sublist startsWith_iff_prefix)

lemma isRecognizedPredicate_code:
  "isRecognizedPredicate flt \<longleftrightarrow>
     (flt \<in> set (map js [''done'', ''not done'', ''cancelled'', ''in progress'',
                          ''due today'', ''due before today'', ''due after today'',
                          ''has due date'', ''no due date'', ''has tags'', ''no tags'']) \<or>
      matchDueOn flt \<noteq> None \<or>
      matchDueWord (js ''before'') flt \<noteq> None \<or>
      matchDueWord (js ''after'') flt \<noteq> None \<or>
      startsWith flt (js ''has tag '') \<or>
      startsWith flt (js ''tag includes '') \<or>
      startsWith flt (js ''path includes'') \<or>
      startsWith flt (js ''path does not include'') \<or>
      startsWith flt (js ''description includes'') \<or>
      startsWith flt (js ''description does not include'') \<or>
      (startsWith flt (js ''priority is'') \<and>
       (case trimAt1 (split_js flt (js ''priority is'')) of
          Inl e \<Rightarrow> False
        | Inr p \<Rightarrow> p \<in> set (map js [''highest'', ''high'', ''medium'', ''low'',
                                        ''lowest'', ''none'']))))"
proof -
  have b: "matchDueWord (js ''before'') flt \<noteq> None \<longleftrightarrow> specDueWord (js ''before'') flt"
    by (rule matchDueWord_iff [where x = 98 and xs = "js ''efore''"])
       (simp_all add: js_simps isWhiteSpace_def isLineTerminator_def)
  have a: "matchDueWord (js ''after'') flt \<noteq> None \<longleftrightarrow> specDueWord (js ''after'') flt"
    by (rule matchDueWord_iff [where x = 97 and xs = "js ''fter''"])
       (simp_all add: js_simps isWhiteSpace_def isLineTerminator_def)
  show ?thesis
    by (simp only: isRecognizedPredicate_def matchDueOn_iff a b specPriority_iff
          startsWith_iff_prefix)
qed

lemma dueFilter_None:
  assumes "flt \<noteq> js ''due today''" "flt \<noteq> js ''due before today''"
    "flt \<noteq> js ''due after today''" "flt \<noteq> js ''no due date''" "flt \<noteq> js ''has due date''"
    "matchDueOn flt = None" "matchDueWord (js ''before'') flt = None"
    "matchDueWord (js ''after'') flt = None"
  shows "dueFilter today t flt = None"
  using assms by (simp add: dueFilter_def)

lemma priorityFilter_None:
  assumes "\<not> (startsWith flt (js ''priority is'') \<and>
       (case trimAt1 (split_js flt (js ''priority is'')) of
          Inl e \<Rightarrow> False
        | Inr p \<Rightarrow> p \<in> set (map js [''highest'', ''high'', ''medium'', ''low'',
                                        ''lowest'', ''none''])))"
  shows "priorityFilter t flt = Inr None"
proof (cases "startsWith flt (js ''priority is'')")
  case True
  have "\<not> isl (trimAt1 (split_js flt (js ''priority is'')))"
    by (rule isl_trimAt1 [OF True]) (simp_all add: js_simps)
  with True assms show ?thesis
    by (cases "trimAt1 (split_js flt (js ''priority is''))")
       (simp_all add: priorityFilter_def)
next
  case False
  then show ?thesis by (simp add: priorityFilter_def)
qed

lemma applyPredicate_fallback:
  assumes "\<not> isRecognizedPredicate flt"
  shows "applyPredicate today t flt = Inr (includes_js (toLowerCase (description t)) flt)"
proof -
  from assms have exact:
    "flt \<noteq> js ''done''" "flt \<noteq> js ''not done''" "flt \<noteq> js ''cancelled''"
    "flt \<noteq> js ''in progress''" "flt \<noteq> js ''no tags''" "flt \<noteq> js ''has tags''"
    and due: "dueFilter today t flt = None"
    and pre: "\<not> startsWith flt (js ''tag includes '')" "\<not> startsWith flt (js ''has tag '')"
      "\<not> startsWith flt (js ''path includes'')"
      "\<not> startsWith flt (js ''path does not include'')"
      "\<not> startsWith flt (js ''description includes'')"
      "\<not> startsWith flt (js ''description does not include'')"
    and pri: "priorityFilter t flt = Inr None"
    by (simp_all add: isRecognizedPredicate_code dueFilter_None priorityFilter_None)
  show ?thesis
    unfolding applyPredicate_def by (simp add: exact due pre pri)
qed

lemma applyFilter_fallback_lemma:
  assumes "\<not> isConnective (trim (toLowerCase f))"
    "\<not> isRecognizedPredicate (trim (toLowerCase f))"
  shows "applyFilter today t f =
           Inr (includes_js (toLowerCase (description t)) (trim (toLowerCase f)))"
proof -
  from assms(1) have "applyFilter today t f = applyPredicate today t (trim (toLowerCase f))"
    by (intro applyFilter_predicate) (simp_all add: isConnective_code)
  with applyPredicate_fallback [OF assms(2)] show ?thesis by simp
qed

lemmas filter_eval =
  isConnective_code isRecognizedPredicate_code matchDueOn_def matchDueWord_def
  skipWhiteSpace1_def matchExactDate_def isDate_def trimAt1_def split_js_def

lemma single_letter_fallback:
  assumes "97 \<le> c" "c \<le> 122"
  shows "applyFilter today t [c] = Inr (includes_js (toLowerCase (description t)) [c])"
proof -
  from assms have tl: "trim (toLowerCase [c]) = [c]"
    by (auto simp: trim_def toLowerCase_def lowerChar_def isWhiteSpace_def isLineTerminator_def)
  have "\<not> isConnective [c]" by (simp add: isConnective_code js_simps)
  moreover have "\<not> isRecognizedPredicate [c]" by (simp add: filter_eval js_simps)
  ultimately show ?thesis
    using applyFilter_fallback_lemma [of "[c]" today t] by (simp add: tl)
qed

lemma applyFilter_a_or_b:
  "applyFilter today t (js ''a or b'') =
     Inr (includes_js (toLowerCase (description t)) (js ''a'') \<or>
          includes_js (toLowerCase (description t)) (js ''b''))"
proof -
  have 1: "applyFilter today t (js ''a or b'') =
          some_js (\<lambda>part. applyFilter today t (trim part))
            (split_js (js ''a or b'') (js '' or ''))"
    by (rule applyFilter_or) (simp_all add: string_eval)
  have 2: "split_js (js ''a or b'') (js '' or '') = [js ''a'', js ''b'']"
    by (simp add: split_js_def js_simps)
  have 3: "trim (js ''a'') = js ''a''" "trim (js ''b'') = js ''b''"
    by (simp_all add: string_eval)
  have 4: "applyFilter today t (js ''a'') =
             Inr (includes_js (toLowerCase (description t)) (js ''a''))"
    "applyFilter today t (js ''b'') =
             Inr (includes_js (toLowerCase (description t)) (js ''b''))"
    using single_letter_fallback [of 97 today t] single_letter_fallback [of 98 today t]
    by (simp_all add: js_simps)
  show ?thesis
    unfolding 1 2 by (simp only: some_js.simps 3 4) simp
qed

lemma applyFilter_a_or_b_and_c:
  "applyFilter today t (js ''a or b and c'') =
     Inr ((includes_js (toLowerCase (description t)) (js ''a'') \<or>
           includes_js (toLowerCase (description t)) (js ''b'')) \<and>
          includes_js (toLowerCase (description t)) (js ''c''))"
proof -
  have 1: "applyFilter today t (js ''a or b and c'') =
          every_js (\<lambda>part. applyFilter today t (trim part))
            (split_js (js ''a or b and c'') (js '' and ''))"
    by (rule applyFilter_and) (simp_all add: string_eval)
  have 2: "split_js (js ''a or b and c'') (js '' and '') = [js ''a or b'', js ''c'']"
    by (simp add: split_js_def js_simps)
  have 3: "trim (js ''a or b'') = js ''a or b''" "trim (js ''c'') = js ''c''"
    by (simp_all add: string_eval)
  have 4: "applyFilter today t (js ''c'') =
             Inr (includes_js (toLowerCase (description t)) (js ''c''))"
    using single_letter_fallback [of 99 today t] by (simp add: js_simps)
  show ?thesis
    unfolding 1 2 by (simp only: every_js.simps 3 4 applyFilter_a_or_b) simp
qed

subsection \<open>The call stack and the lower-casing of the engine\<close>

text \<open>
  The properties of \<open>applyFilterStack\<close>: the body below the connectives never reads past
  the end of a split, whatever the lower-casing; the nested calls never do either; and a
  call returns when the stack holds more nested calls than the lower-cased filter has
  code units, provided lower-casing leaves the pieces of a lower-cased string unchanged.
\<close>

lemma applyPredicateLc_toLowerCase:
  "applyPredicateLc toLowerCase today t flt = applyPredicate today t flt"
  unfolding applyPredicateLc_def applyPredicate_def ..












text \<open>The ASCII lower-casing leaves every piece of a lower-cased string as it is.\<close>

lemma lowered_stable:
  assumes "list_all (\<lambda>c. lowerChar c = c) s" "sublist q s"
  shows "toLowerCase q = q"
proof -
  from assms(2) have "set q \<subseteq> set s" by (rule set_mono_sublist)
  with assms(1) have "\<forall>c \<in> set q. lowerChar c = c" by (auto simp: list_all_iff)
  then show ?thesis unfolding toLowerCase_def by (simp add: map_idI)
qed

lemma toLowerCase_lowered: "list_all (\<lambda>c. lowerChar c = c) (toLowerCase s)"
  by (auto simp: list_all_iff toLowerCase_def lowerChar_def)

lemma toLowerCase_stable: "sublist q (toLowerCase f) \<Longrightarrow> toLowerCase q = q"
  by (rule lowered_stable [OF toLowerCase_lowered])

text \<open>
  With the ASCII lower-casing and a call stack that holds more calls than the filter has
  code units, \<open>applyFilterStack\<close> is \<open>applyFilter\<close>.
\<close>

lemma applyFilterStack_applyFilter:
  "length f < n \<Longrightarrow> applyFilterStack toLowerCase n today t f = applyFilter today t f"
proof (induction n arbitrary: f)
  case 0
  then show ?case by simp
next
  case (Suc n)
  define flt where "flt = trim (toLowerCase f)"
  have flt: "trim (toLowerCase f) = flt" by (simp add: flt_def)
  have len: "length flt \<le> n"
    using Suc.prems length_trim_le [of "toLowerCase f"] by (simp add: flt_def length_toLowerCase)
  note nA = no_AND [of f] and nO = no_OR [of f]
  have part: "applyFilterStack toLowerCase n today t (trim p) = applyFilter today t (trim p)"
    if "includes_js flt sep" "sep \<noteq> []" "p \<in> set (split_js flt sep)" for p sep
    using split_js_part_less [OF that(2,1,3)] length_trim_le [of p] len
    by (intro Suc.IH) simp
  have unfold: "applyFilterStack toLowerCase (Suc n) today t f =
      (if includes_js flt (js '' and '') then
         every_js (\<lambda>part. applyFilterStack toLowerCase n today t (trim part))
           (split_js flt (js '' and ''))
       else if includes_js flt (js '' or '') then
         some_js (\<lambda>part. applyFilterStack toLowerCase n today t (trim part))
           (split_js flt (js '' or ''))
       else if startsWith flt (js ''not '') then
         (case applyFilterStack toLowerCase n today t (drop 4 flt) of
            Inl e \<Rightarrow> Inl e | Inr b \<Rightarrow> Inr (\<not> b))
       else applyPredicate today t flt)"
    using nA nO by (simp add: applyFilterStack.simps Let_def flt applyPredicateLc_toLowerCase)
  consider (a) "includes_js flt (js '' and '')"
    | (b) "\<not> includes_js flt (js '' and '')" "includes_js flt (js '' or '')"
    | (c) "\<not> includes_js flt (js '' and '')" "\<not> includes_js flt (js '' or '')"
          "startsWith flt (js ''not '')"
    | (d) "\<not> includes_js flt (js '' and '')" "\<not> includes_js flt (js '' or '')"
          "\<not> startsWith flt (js ''not '')"
    by blast
  then show ?case
  proof cases
    case a
    have "every_js (\<lambda>part. applyFilterStack toLowerCase n today t (trim part))
            (split_js flt (js '' and '')) =
          every_js (\<lambda>part. applyFilter today t (trim part)) (split_js flt (js '' and ''))"
      by (rule every_js_cong [OF refl]) (rule part [OF a], simp_all add: js_simps)
    with a show ?thesis by (simp add: unfold applyFilter_and [OF flt a])
  next
    case b
    have "some_js (\<lambda>part. applyFilterStack toLowerCase n today t (trim part))
            (split_js flt (js '' or '')) =
          some_js (\<lambda>part. applyFilter today t (trim part)) (split_js flt (js '' or ''))"
      by (rule some_js_cong [OF refl]) (rule part [OF b(2)], simp_all add: js_simps)
    with b show ?thesis by (simp add: unfold applyFilter_or [OF flt b])
  next
    case c
    have "length (drop 4 flt) < n"
      using startsWith_length [OF c(3)] len by (simp add: js_def)
    then have "applyFilterStack toLowerCase n today t (drop 4 flt) =
                 applyFilter today t (drop 4 flt)"
      by (rule Suc.IH)
    with c show ?thesis by (simp add: unfold applyFilter_not [OF flt c])
  next
    case d
    then show ?thesis by (simp add: unfold applyFilter_predicate [OF flt d])
  qed
qed






subsection \<open>The claims on \<open>applyFilter\<close>\<close>

text \<open>
  C1. The clause \<open>not done\<close> is meant to hold exactly for the statuses \<open>incomplete\<close> and
  \<open>in_progress\<close>. In the code the clause begins with \<open>not\<close> and a space, so the test for
  negation takes it before the status filters are reached: the result is the negation
  of \<open>done\<close>, which is true for every status but \<open>complete\<close>, and so also for
  \<open>cancelled\<close> and \<open>non_task\<close>.
\<close>

theorem applyFilter_not_done_is_negation:
  "applyFilter today t (js ''not done'') = Inr (status t \<noteq> Complete) \<and>
   applyFilter today (t\<lparr>status := Cancelled\<rparr>) (js ''not done'') = Inr True \<and>
   applyFilter today (t\<lparr>status := Non_task\<rparr>) (js ''not done'') = Inr True"
  by (simp add: applyFilter_not_done_eq)

text \<open>
  C2, as the code has it. The test for \<open>and\<close> comes before the test for \<open>or\<close>, so the
  clause \<open>a or b and c\<close> is split at \<open>and\<close> into \<open>a or b\<close> and \<open>c\<close>, and the left
  part is then split at \<open>or\<close>: the result is (\<open>a\<close> or \<open>b\<close>) and \<open>c\<close>.
\<close>

theorem applyFilter_mixed_and_first:
  "\<exists>ra rb rc.
     applyFilter today t (js ''a'') = Inr ra \<and>
     applyFilter today t (js ''b'') = Inr rb \<and>
     applyFilter today t (js ''c'') = Inr rc \<and>
     applyFilter today t (js ''a or b'') = Inr (ra \<or> rb) \<and>
     applyFilter today t (js ''a or b and c'') = Inr ((ra \<or> rb) \<and> rc)"
  using applyFilter_a_or_b [of today t] applyFilter_a_or_b_and_c [of today t]
    single_letter_fallback [of 97 today t] single_letter_fallback [of 98 today t]
    single_letter_fallback [of 99 today t]
  by (simp add: js_simps)

text \<open>
  The reading of C2 as a single \<open>or\<close> of \<open>a\<close> with \<open>b and c\<close> fails on the task whose
  description is \<open>Task with #tag\<close>: the clause \<open>a\<close> holds, \<open>b\<close> and \<open>c\<close> do not, and the
  whole clause is false.
\<close>

theorem applyFilter_mixed_counterexample:
  "applyFilter (js ''2025-04-18'') testTask (js ''a'') = Inr True \<and>
   applyFilter (js ''2025-04-18'') testTask (js ''b'') = Inr False \<and>
   applyFilter (js ''2025-04-18'') testTask (js ''c'') = Inr False \<and>
   applyFilter (js ''2025-04-18'') testTask (js ''a or b and c'') = Inr False"
  using applyFilter_a_or_b_and_c [of "js ''2025-04-18''" testTask]
    single_letter_fallback [of 97 "js ''2025-04-18''" testTask]
    single_letter_fallback [of 98 "js ''2025-04-18''" testTask]
    single_letter_fallback [of 99 "js ''2025-04-18''" testTask]
  by (simp add: testTask_def js_simps toLowerCase_def lowerChar_def)




section \<open>Properties of \<open>queryTasks\<close>\<close>

lemma every_js_Inr:
  "(\<And>x. x \<in> set xs \<Longrightarrow> \<not> isl (f x)) \<Longrightarrow>
     every_js f xs = Inr (\<forall>x \<in> set xs. f x = Inr True)"
proof (induction xs)
  case Nil
  show ?case by simp
next
  case (Cons a xs)
  have a: "\<not> isl (f a)" by (rule Cons.prems) simp
  have r: "every_js f xs = Inr (\<forall>x \<in> set xs. f x = Inr True)"
    by (rule Cons.IH) (rule Cons.prems, simp)
  from a r show ?case by (cases "f a") auto
qed

lemma filter_js_Inr:
  "(\<And>x. x \<in> set xs \<Longrightarrow> \<not> isl (f x)) \<Longrightarrow>
     filter_js f xs = Inr (filter (\<lambda>x. f x = Inr True) xs)"
proof (induction xs)
  case Nil
  show ?case by simp
next
  case (Cons a xs)
  have a: "\<not> isl (f a)" by (rule Cons.prems) simp
  have r: "filter_js f xs = Inr (filter (\<lambda>x. f x = Inr True) xs)"
    by (rule Cons.IH) (rule Cons.prems, simp)
  from a r show ?case by (cases "f a") auto
qed

lemma queryTasks_eq:
  "queryTasks today tasks q =
     Inr (filter (\<lambda>t. \<forall>line \<in> set (parseQuery q). applyFilter today t line = Inr True) tasks)"
proof -
  have e: "every_js (\<lambda>flt. applyFilter today t flt) (parseQuery q) =
             Inr (\<forall>line \<in> set (parseQuery q). applyFilter today t line = Inr True)" for t
    by (rule every_js_Inr) (rule applyFilter_not_isl)
  show ?thesis
    unfolding queryTasks_def Let_def e
    by (subst filter_js_Inr) simp_all
qed

lemma applyFilter_has_tag_work:
  "applyFilter today t (js ''has tag work'') =
     Inr (\<exists>tag \<in> set (tags t). stripHash tag = js ''work'')"
proof -
  have "applyFilter today t (js ''has tag work'') = applyPredicate today t (js ''has tag work'')"
    by (rule applyFilter_predicate) (simp_all add: string_eval)
  also have "\<dots> = Inr (list_ex (\<lambda>tag. stripHash tag = js ''work'') (tags t))"
    by (simp add: applyPredicate_def dueFilter_def js_simps trim_def isWhiteSpace_def
          isLineTerminator_def stripHash_def)
  finally show ?thesis by (simp add: list_ex_iff)
qed

lemma parseQuery_done_work:
  "parseQuery (js ''done'' @ [10] @ js ''has tag work'') = [js ''done'', js ''has tag work'']"
  by (simp add: parseQuery_def split_js_def string_eval)

lemma queryTasks_done_work:
  "queryTasks today tasks (js ''done'' @ [10] @ js ''has tag work'') =
     Inr (filter (\<lambda>t. status t = Complete \<and> (\<exists>tag \<in> set (tags t). stripHash tag = js ''work''))
            tasks)"
  unfolding queryTasks_eq parseQuery_done_work
  by (simp add: applyFilter_done applyFilter_has_tag_work)

lemma stripHash_work:
  "startsWith tag (js ''#'') \<Longrightarrow> stripHash tag = js ''work'' \<longleftrightarrow> tag = js ''#work''"
  by (cases tag) (auto simp: stripHash_def js_simps)

lemma count_list_filter_le: "count_list (filter P xs) x \<le> count_list xs x"
  by (induction xs) auto

text \<open>
  C5. \<open>queryTasks\<close> returns exactly the tasks for which every line of the query holds,
  the lines being those of the text, trimmed, that are not empty and do not begin with
  \<open>#\<close>: a conjunction over the lines. For the query \<open>done\<close>, newline, \<open>has tag work\<close> the
  result is the tasks that are complete and have a tag equal to \<open>work\<close> after one leading
  \<open>#\<close> is removed; when every tag begins with \<open>#\<close>, as the data model says, these are
  the complete tasks whose tags contain \<open>#work\<close>.
\<close>

theorem queryTasks_conjunction:
  "queryTasks today tasks q =
     Inr (filter (\<lambda>t. \<forall>line \<in> set (parseQuery q). applyFilter today t line = Inr True) tasks) \<and>
   parseQuery q =
     filter (\<lambda>line. line \<noteq> [] \<and> \<not> startsWith line (js ''#'')) (map trim (split_js q [10])) \<and>
   queryTasks today tasks (js ''done'' @ [10] @ js ''has tag work'') =
     Inr (filter (\<lambda>t. status t = Complete \<and> (\<exists>tag \<in> set (tags t). stripHash tag = js ''work''))
            tasks) \<and>
   ((\<forall>t \<in> set tasks. \<forall>tag \<in> set (tags t). startsWith tag (js ''#'')) \<longrightarrow>
    queryTasks today tasks (js ''done'' @ [10] @ js ''has tag work'') =
      Inr (filter (\<lambda>t. status t = Complete \<and> js ''#work'' \<in> set (tags t)) tasks))"
proof (intro conjI impI)
  assume h: "\<forall>t \<in> set tasks. \<forall>tag \<in> set (tags t). startsWith tag (js ''#'')"
  have "filter (\<lambda>t. status t = Complete \<and> (\<exists>tag \<in> set (tags t). stripHash tag = js ''work''))
          tasks = filter (\<lambda>t. status t = Complete \<and> js ''#work'' \<in> set (tags t)) tasks"
  proof (rule filter_cong [OF refl])
    fix t assume "t \<in> set tasks"
    with h have "\<forall>tag \<in> set (tags t). startsWith tag (js ''#'')" by blast
    then have "(\<exists>tag \<in> set (tags t). stripHash tag = js ''work'') \<longleftrightarrow>
                 js ''#work'' \<in> set (tags t)"
      using stripHash_work by (metis)
    then show "(status t = Complete \<and> (\<exists>tag \<in> set (tags t). stripHash tag = js ''work'')) =
                 (status t = Complete \<and> js ''#work'' \<in> set (tags t))" by simp
  qed
  then show "queryTasks today tasks (js ''done'' @ [10] @ js ''has tag work'') =
      Inr (filter (\<lambda>t. status t = Complete \<and> js ''#work'' \<in> set (tags t)) tasks)"
    by (simp only: queryTasks_done_work)
next
  show "queryTasks today tasks q =
     Inr (filter (\<lambda>t. \<forall>line \<in> set (parseQuery q). applyFilter today t line = Inr True) tasks)"
    by (rule queryTasks_eq)
next
  show "parseQuery q =
     filter (\<lambda>line. line \<noteq> [] \<and> \<not> startsWith line (js ''#'')) (map trim (split_js q [10]))"
    by (simp only: parseQuery_def)
next
  show "queryTasks today tasks (js ''done'' @ [10] @ js ''has tag work'') =
     Inr (filter (\<lambda>t. status t = Complete \<and> (\<exists>tag \<in> set (tags t). stripHash tag = js ''work''))
            tasks)"
    by (rule queryTasks_done_work)
qed

theorem queryTasks_conjunction_witness:
  "list_all (\<lambda>t. list_all (\<lambda>tag. startsWith tag (js ''#'')) (tags t)) workTasks \<and>
   queryTasks (js ''2025-04-18'') workTasks (js ''done'' @ [10] @ js ''has tag work'')
     = Inr [testTask\<lparr>status := Complete, tags := [js ''#home'', js ''#work'']\<rparr>]"
proof -
  have h: "\<forall>t \<in> set workTasks. \<forall>tag \<in> set (tags t). startsWith tag (js ''#'')"
    by (simp add: workTasks_def testTask_def js_simps)
  have "queryTasks (js ''2025-04-18'') workTasks (js ''done'' @ [10] @ js ''has tag work'') =
          Inr (filter (\<lambda>t. status t = Complete \<and> js ''#work'' \<in> set (tags t)) workTasks)"
    using h queryTasks_conjunction [of "js ''2025-04-18''" workTasks
        "js ''done'' @ [10] @ js ''has tag work''"]
    by blast
  moreover have "filter (\<lambda>t. status t = Complete \<and> js ''#work'' \<in> set (tags t)) workTasks =
          [testTask\<lparr>status := Complete, tags := [js ''#home'', js ''#work'']\<rparr>]"
    by (simp add: workTasks_def testTask_def js_simps)
  ultimately show ?thesis using h by (simp add: list_all_iff)
qed

text \<open>
  C10. The result of \<open>queryTasks\<close> is a sublist of the tasks given, in their order: every
  task returned is one of the input, unchanged, no more often than it occurs there.
\<close>

theorem queryTasks_sublist:
  "\<exists>r. queryTasks today tasks q = Inr r \<and> subseq r tasks \<and> set r \<subseteq> set tasks \<and>
       (\<forall>t. count_list r t \<le> count_list tasks t)"
  unfolding queryTasks_eq by (simp add: count_list_filter_le)

section \<open>Priority and tags\<close>

subsection \<open>The first priority marker\<close>

lemma noMarkerIn_Cons:
  assumes "noMarkerIn (c # cs)"
  shows "noMarkerIn cs" "c \<noteq> 0x23EB" "c \<noteq> 0x23EC"
    "\<not> startsWith (c # cs) mediumMarker" "\<not> startsWith (c # cs) lowMarker"
  using assms by (auto simp: noMarkerIn_def priorityLevels_def marker_defs)

lemma matchAllPriority_none: "noMarkerIn s \<Longrightarrow> matchAllPriority s = []"
proof (induction s)
  case Nil
  show ?case by simp
next
  case (Cons c cs)
  from noMarkerIn_Cons [OF Cons.prems] Cons.IH show ?case
    by (simp add: marker_defs)
qed

lemma matchAllPriority_at_marker:
  assumes "(m, lvl) \<in> set priorityLevels" "\<not> (m = highMarker \<and> startsWith post highMarker)"
  shows "\<exists>rest. matchAllPriority (m @ post) = m # rest"
proof -
  from assms(1) consider "m = highestMarker" | "m = highMarker" | "m = mediumMarker"
    | "m = lowMarker" | "m = lowestMarker"
    by (auto simp: priorityLevels_def)
  then show ?thesis
  proof cases
    case 2
    with assms(2) have "\<not> startsWith post [0x23EB]" by (simp add: marker_defs)
    with 2 show ?thesis by (simp add: marker_defs)
  qed (simp_all add: marker_defs)
qed

lemma marker_head:
  assumes "(m, lvl) \<in> set priorityLevels"
  shows "\<exists>x xs. m = x # xs \<and> x \<noteq> 0xDD3C \<and> x \<noteq> 0xDD3D"
  using assms by (auto simp: priorityLevels_def marker_defs)

lemma matchAllPriority_first:
  assumes "noMarkerIn pre" "(m, lvl) \<in> set priorityLevels"
    "\<not> (m = highMarker \<and> startsWith post highMarker)"
  shows "\<exists>rest. matchAllPriority (pre @ m @ post) = m # rest"
  using assms(1)
proof (induction pre)
  case Nil
  from matchAllPriority_at_marker [OF assms(2,3)] show ?case by simp
next
  case (Cons c cs)
  note n = noMarkerIn_Cons [OF Cons.prems]
  from marker_head [OF assms(2)] obtain x xs where
    x: "m = x # xs" "x \<noteq> 0xDD3C" "x \<noteq> 0xDD3D" by blast
  have "\<not> startsWith (c # (cs @ m @ post)) mediumMarker"
    using n(4) x by (cases cs) (auto simp: marker_defs)
  moreover have "\<not> startsWith (c # (cs @ m @ post)) lowMarker"
    using n(5) x by (cases cs) (auto simp: marker_defs)
  ultimately have "matchAllPriority ((c # cs) @ m @ post) = matchAllPriority (cs @ m @ post)"
    using n(2,3) by (simp add: highestMarker_def highMarker_def lowestMarker_def)
  with Cons.IH [OF n(1)] show ?case by simp
qed

lemma priority_of_marker:
  assumes "(m, lvl) \<in> set priorityLevels"
  shows "(if m = highestMarker then Some (js ''highest'')
          else if m = highMarker then Some (js ''high'')
          else if m = mediumMarker then Some (js ''medium'')
          else if m = lowMarker then Some (js ''low'')
          else if m = lowestMarker then Some (js ''lowest'')
          else None) = Some lvl"
  using assms by (auto simp: priorityLevels_def marker_defs)

text \<open>
  C4. Every recognized line has the task shape, and for a line of the shape, with
  \<open>rest\<close> after its checkbox, \<open>parseTaskLine\<close> returns a task whose description is
  the description of the line and whose priority is the level of the leftmost priority
  marker in it: when the description is \<open>pre\<close>, then a marker, then \<open>post\<close>, with no
  marker in \<open>pre\<close> (and the marker taken as the doubled one where two single ones
  meet), the priority is the level of that marker, whatever markers follow in \<open>post\<close>.
  When no marker occurs in the description, the priority is absent.
\<close>

theorem parseTaskLine_priority_first:
  "(parseTaskLine line fp ln \<noteq> None \<longrightarrow> (\<exists>c rest. taskLine line c rest)) \<and>
   (\<forall>c rest. taskLine line c rest \<longrightarrow>
      (\<exists>t. parseTaskLine line fp ln = Some t \<and>
           description t = specDescription rest \<and>
           (\<forall>pre m lvl post.
              specDescription rest = pre @ m @ post \<and> (m, lvl) \<in> set priorityLevels \<and>
              noMarkerIn pre \<and> \<not> (m = highMarker \<and> startsWith post highMarker)
              \<longrightarrow> priority t = Some lvl) \<and>
           (noMarkerIn (specDescription rest) \<longrightarrow> priority t = None)))"
proof (intro conjI allI impI)
  assume "parseTaskLine line fp ln \<noteq> None"
  then show "\<exists>c rest. taskLine line c rest" by (rule parseTaskLine_has_taskLine)
next
  fix c rest
  assume "taskLine line c rest"
  from parseTaskLine_taskLine [OF this, of fp ln] obtain t where
    t: "parseTaskLine line fp ln = Some t" and
    d: "description t = specDescription rest" and
    p: "priority t =
             (case matchAllPriority (specDescription rest) of
                [] \<Rightarrow> None
              | firstPriority # _ \<Rightarrow>
                  if firstPriority = highestMarker then Some (js ''highest'')
                  else if firstPriority = highMarker then Some (js ''high'')
                  else if firstPriority = mediumMarker then Some (js ''medium'')
                  else if firstPriority = lowMarker then Some (js ''low'')
                  else if firstPriority = lowestMarker then Some (js ''lowest'')
                  else None)"
    by blast
  have 1: "priority t = Some lvl"
    if a: "specDescription rest = pre @ m @ post \<and> (m, lvl) \<in> set priorityLevels \<and>
            noMarkerIn pre \<and> \<not> (m = highMarker \<and> startsWith post highMarker)"
    for pre m lvl post
  proof -
    from a obtain rs where "matchAllPriority (pre @ m @ post) = m # rs"
      using matchAllPriority_first [of pre m lvl post] by blast
    with a have "matchAllPriority (specDescription rest) = m # rs" by simp
    with p have "priority t =
                  (if m = highestMarker then Some (js ''highest'')
          else if m = highMarker then Some (js ''high'')
          else if m = mediumMarker then Some (js ''medium'')
          else if m = lowMarker then Some (js ''low'')
          else if m = lowestMarker then Some (js ''lowest'')
          else None)" by simp
    with priority_of_marker [of m lvl] a show "priority t = Some lvl" by simp
  qed
  have 2: "priority t = None" if "noMarkerIn (specDescription rest)"
    using that p by (simp add: matchAllPriority_none)
  from t d 1 2 show "\<exists>t. parseTaskLine line fp ln = Some t \<and>
           description t = specDescription rest \<and>
           (\<forall>pre m lvl post.
              specDescription rest = pre @ m @ post \<and> (m, lvl) \<in> set priorityLevels \<and>
              noMarkerIn pre \<and> \<not> (m = highMarker \<and> startsWith post highMarker)
              \<longrightarrow> priority t = Some lvl) \<and>
           (noMarkerIn (specDescription rest) \<longrightarrow> priority t = None)"
    by blast
qed

text \<open>A medium marker before the doubled, highest one: the priority is \<open>medium\<close>.\<close>

lemma taskLine_review:
  "taskLine (js ''- [ ] Review '' @ mediumMarker @ js '' then '' @ highestMarker) (js '' '')
     (js '' Review '' @ mediumMarker @ js '' then '' @ highestMarker)"
  unfolding taskLine_def
  apply (rule exI [of _ "[]"], rule exI [of _ "js ''-''"], rule exI [of _ "js '' ''"])
  apply (simp add: js_simps isListMarker_def isCodePoint_def isLineTerminator_def)
  done

lemma specDescription_review:
  "specDescription (js '' Review '' @ mediumMarker @ js '' then '' @ highestMarker) =
     js ''Review '' @ mediumMarker @ (js '' then '' @ highestMarker)"
  by (simp add: specDescription_def string_eval marker_defs)

theorem parseTaskLine_priority_first_witness:
  "map_option priority
     (parseTaskLine (js ''- [ ] Review '' @ mediumMarker @ js '' then '' @ highestMarker)
        (js ''notes.md'') 0)
     = Some (Some (js ''medium'')) \<and>
   map_option description
     (parseTaskLine (js ''- [ ] Review '' @ mediumMarker @ js '' then '' @ highestMarker)
        (js ''notes.md'') 0)
     = Some (js ''Review '' @ mediumMarker @ js '' then '' @ highestMarker)"
proof -
  let ?line = "js ''- [ ] Review '' @ mediumMarker @ js '' then '' @ highestMarker"
  let ?rest = "js '' Review '' @ mediumMarker @ js '' then '' @ highestMarker"
  have l: "(mediumMarker, js ''medium'') \<in> set priorityLevels"
    by (simp add: priorityLevels_def)
  have n: "noMarkerIn (js ''Review '')"
    by (simp add: noMarkerIn_def priorityLevels_def marker_defs js_simps)
  have h: "\<not> (mediumMarker = highMarker \<and> startsWith (js '' then '' @ highestMarker) highMarker)"
    by (simp add: marker_defs)
  from parseTaskLine_priority_first [of ?line "js ''notes.md''" 0] taskLine_review
  obtain t where t: "parseTaskLine ?line (js ''notes.md'') 0 = Some t"
    and d: "description t = specDescription ?rest"
    and p: "\<forall>pre m lvl post.
              specDescription ?rest = pre @ m @ post \<and> (m, lvl) \<in> set priorityLevels \<and>
              noMarkerIn pre \<and> \<not> (m = highMarker \<and> startsWith post highMarker)
              \<longrightarrow> priority t = Some lvl"
    by blast
  from p specDescription_review l n h have "priority t = Some (js ''medium'')" by blast
  with t d specDescription_review show ?thesis by simp
qed

subsection \<open>The tags\<close>

lemma not_ws_hash: "\<not> isWhiteSpace 35"
  by (simp add: isWhiteSpace_def isLineTerminator_def)

lemma tagsOf_simps: "tagsOf [] = []"
  "tagsOf (m # ms) = (if trim m = [] then tagsOf ms else trim m # tagsOf ms)"
  by (simp_all add: tagsOf_def)

lemma trim_keeps_hash: "\<exists>r'. trim (35 # r) = 35 # r'"
proof -
  have "\<exists>l. dropWhile isWhiteSpace (rev r @ [35]) = l @ [35]"
    by (simp add: dropWhile_append not_ws_hash)
  then obtain l where "dropWhile isWhiteSpace (rev r @ [35]) = l @ [35]" by blast
  then show ?thesis by (simp add: trim_def not_ws_hash)
qed

lemma matchAllHashTags_unfold1:
  assumes A: "atStart \<and> c = 35 \<and> takeWhile (\<lambda>x. \<not> hashTagEnd x) cs \<noteq> []"
  shows "matchAllHashTags atStart (c # cs) =
       (c # takeWhile (\<lambda>x. \<not> hashTagEnd x) cs)
         # matchAllHashTags False (dropWhile (\<lambda>x. \<not> hashTagEnd x) cs)"
  by (subst matchAllHashTags.simps) (rule if_P [OF A])

lemma matchAllHashTags_unfold2:
  assumes A: "\<not> (atStart \<and> c = 35 \<and> takeWhile (\<lambda>x. \<not> hashTagEnd x) [] \<noteq> [])"
  shows "matchAllHashTags atStart [c] = []"
  by (subst matchAllHashTags.simps) (simp only: if_not_P [OF A] list.case)

lemma matchAllHashTags_unfold3:
  assumes A: "\<not> (atStart \<and> c = 35 \<and> takeWhile (\<lambda>x. \<not> hashTagEnd x) (d # r) \<noteq> [])"
    and B: "isWhiteSpace c \<and> d = 35 \<and> takeWhile (\<lambda>x. \<not> hashTagEnd x) r \<noteq> []"
  shows "matchAllHashTags atStart (c # d # r) =
       (c # d # takeWhile (\<lambda>x. \<not> hashTagEnd x) r)
         # matchAllHashTags False (dropWhile (\<lambda>x. \<not> hashTagEnd x) r)"
  by (subst matchAllHashTags.simps) (simp only: if_not_P [OF A] list.case if_P [OF B])

lemma matchAllHashTags_unfold4:
  assumes A: "\<not> (atStart \<and> c = 35 \<and> takeWhile (\<lambda>x. \<not> hashTagEnd x) (d # r) \<noteq> [])"
    and B: "\<not> (isWhiteSpace c \<and> d = 35 \<and> takeWhile (\<lambda>x. \<not> hashTagEnd x) r \<noteq> [])"
  shows "matchAllHashTags atStart (c # d # r) = matchAllHashTags False (d # r)"
  by (subst matchAllHashTags.simps) (simp only: if_not_P [OF A] list.case if_not_P [OF B])

lemma trim_ws_Cons: "isWhiteSpace c \<Longrightarrow> trim (c # s) = trim s"
  by (simp add: trim_def)

lemma tagsOf_hash: "tagsOf ((35 # b) # ms) = trim (35 # b) # tagsOf ms"
  using trim_keeps_hash [of b] by (auto simp: tagsOf_simps)

lemma tagsOf_ws_hash:
  "isWhiteSpace c \<Longrightarrow> tagsOf ((c # 35 # b) # ms) = trim (35 # b) # tagsOf ms"
  using trim_keeps_hash [of b] by (auto simp: tagsOf_simps trim_ws_Cons)

lemma amendedHashTags_flag:
  "\<not> (d = 35 \<and> takeWhile (\<lambda>x. \<not> hashTagEnd x) r \<noteq> []) \<Longrightarrow>
     amendedHashTags b (d # r) = amendedHashTags False (d # r)"
  by (subst (1 2) amendedHashTags.simps) auto

lemma amended_scan:
  "tagsOf (matchAllHashTags False s) = amendedHashTags False s"
proof (induction "length s" arbitrary: s rule: less_induct)
  case less
  show ?case
  proof (cases s)
    case Nil
    then show ?thesis by (simp add: tagsOf_simps)
  next
    case (Cons c cs)
    note s = this
    show ?thesis
    proof (cases cs)
      case Nil
      have "matchAllHashTags False [c] = []"
        by (rule matchAllHashTags_unfold2) simp
      with s Nil show ?thesis by (simp add: tagsOf_simps)
    next
      case (Cons d r)
      note cs = this
      let ?body = "takeWhile (\<lambda>x. \<not> hashTagEnd x) r"
      let ?rest = "dropWhile (\<lambda>x. \<not> hashTagEnd x) r"
      have A: "\<not> (False \<and> c = 35 \<and> takeWhile (\<lambda>x. \<not> hashTagEnd x) (d # r) \<noteq> [])"
        by simp
      have step: "amendedHashTags False (c # d # r) = amendedHashTags (isWhiteSpace c) (d # r)"
        by (subst amendedHashTags.simps) simp
      show ?thesis
      proof (cases "isWhiteSpace c \<and> d = 35 \<and> ?body \<noteq> []")
        case True
        have "length ?rest < length s"
          using s cs length_dropWhile_le [of "\<lambda>x. \<not> hashTagEnd x" r] by simp
        from less.hyps [OF this]
        have ih: "tagsOf (matchAllHashTags False ?rest) = amendedHashTags False ?rest" .
        have "tagsOf (matchAllHashTags False (c # d # r)) =
                trim (35 # ?body) # amendedHashTags False ?rest"
          unfolding matchAllHashTags_unfold3 [OF A True]
          using True ih by (simp add: tagsOf_ws_hash)
        moreover have "amendedHashTags True (35 # r) =
                trim (35 # ?body) # amendedHashTags False ?rest"
          using True by (subst amendedHashTags.simps) simp
        ultimately show ?thesis using step True s cs by simp
      next
        case False
        have "length (d # r) < length s" using s cs by simp
        from less.hyps [OF this]
        have ih: "tagsOf (matchAllHashTags False (d # r)) = amendedHashTags False (d # r)" .
        have "amendedHashTags (isWhiteSpace c) (d # r) = amendedHashTags False (d # r)"
        proof (cases "isWhiteSpace c")
          case True
          with False show ?thesis by (intro amendedHashTags_flag) simp
        next
          case False
          then show ?thesis by simp
        qed
        with step ih show ?thesis
          unfolding s cs matchAllHashTags_unfold4 [OF A False] by simp
      qed
    qed
  qed
qed

lemma amended_scan_start:
  "tagsOf (matchAllHashTags True s) = amendedHashTags True s"
proof (cases s)
  case Nil
  then show ?thesis by (simp add: tagsOf_simps)
next
  case (Cons c cs)
  let ?body = "takeWhile (\<lambda>x. \<not> hashTagEnd x) cs"
  let ?rest = "dropWhile (\<lambda>x. \<not> hashTagEnd x) cs"
  show ?thesis
  proof (cases "True \<and> c = 35 \<and> ?body \<noteq> []")
    case True
    have "tagsOf (matchAllHashTags True (c # cs)) =
            trim (35 # ?body) # amendedHashTags False ?rest"
      unfolding matchAllHashTags_unfold1 [OF True]
      using True by (simp add: tagsOf_hash amended_scan)
    moreover have "amendedHashTags True (c # cs) =
            trim (35 # ?body) # amendedHashTags False ?rest"
      using True by (subst amendedHashTags.simps) simp
    ultimately show ?thesis using Cons by simp
  next
    case False
    note F = this
    have "amendedHashTags True (c # cs) = amendedHashTags False (c # cs)"
      using F by (intro amendedHashTags_flag) simp
    moreover have "matchAllHashTags True (c # cs) = matchAllHashTags False (c # cs)"
    proof (cases cs)
      case Nil
      have "matchAllHashTags True [c] = []" "matchAllHashTags False [c] = []"
        using F Nil by (auto intro!: matchAllHashTags_unfold2)
      with Nil show ?thesis by simp
    next
      case (Cons d r)
      have A: "\<not> (True \<and> c = 35 \<and> takeWhile (\<lambda>x. \<not> hashTagEnd x) (d # r) \<noteq> [])"
        using F Cons by simp
      have B: "\<not> (False \<and> c = 35 \<and> takeWhile (\<lambda>x. \<not> hashTagEnd x) (d # r) \<noteq> [])"
        by simp
      show ?thesis
      proof (cases "isWhiteSpace c \<and> d = 35 \<and> takeWhile (\<lambda>x. \<not> hashTagEnd x) r \<noteq> []")
        case True
        show ?thesis
          unfolding Cons matchAllHashTags_unfold3 [OF A True]
            matchAllHashTags_unfold3 [OF B True] ..
      next
        case False
        show ?thesis
          unfolding Cons matchAllHashTags_unfold4 [OF A False]
            matchAllHashTags_unfold4 [OF B False] ..
      qed
    qed
    ultimately show ?thesis using Cons amended_scan [of "c # cs"] by simp
  qed
qed

text \<open>
  C7, as the code has it. Every recognized line has the task shape, and for a line of
  the shape, with \<open>rest\<close> after its checkbox, the task returned has the description of
  the line and its \<open>tags\<close> list, in order and with repetitions, every substring of the
  description that starts with a \<open>#\<close> at the start or right after a white-space
  character not taken by the tag before, has at least one character after the \<open>#\<close>,
  and runs to the next character that ends a tag or to the end, trimmed.
\<close>

theorem parseTaskLine_tags:
  "(parseTaskLine line fp ln \<noteq> None \<longrightarrow> (\<exists>c rest. taskLine line c rest)) \<and>
   (\<forall>c rest. taskLine line c rest \<longrightarrow>
      (\<exists>t. parseTaskLine line fp ln = Some t \<and>
           description t = specDescription rest \<and>
           tags t = amendedHashTags True (specDescription rest)))"
proof (intro conjI allI impI)
  assume "parseTaskLine line fp ln \<noteq> None"
  then show "\<exists>c rest. taskLine line c rest" by (rule parseTaskLine_has_taskLine)
next
  fix c rest
  assume "taskLine line c rest"
  from parseTaskLine_taskLine [OF this, of fp ln]
  show "\<exists>t. parseTaskLine line fp ln = Some t \<and>
           description t = specDescription rest \<and>
           tags t = amendedHashTags True (specDescription rest)"
    by (auto simp: amended_scan_start)
qed

lemma parseTaskLine_eval:
  assumes "matchTaskRegex line = Some (i, m, c, r)"
  shows "map_option description (parseTaskLine line fp ln) = Some (trim r)"
    and "map_option tags (parseTaskLine line fp ln) =
           Some (tagsOf (matchAllHashTags True (trim r)))"
proof -
  from assms have "parseTaskLine line fp ln \<noteq> None" by (simp add: parseTaskLine_None_iff)
  then obtain t where t: "parseTaskLine line fp ln = Some t" by blast
  from parseTaskLine_SomeD [OF t] assms
  show "map_option description (parseTaskLine line fp ln) = Some (trim r)"
    and "map_option tags (parseTaskLine line fp ln) =
           Some (tagsOf (matchAllHashTags True (trim r)))"
    by (auto simp: t tagsOf_def)
qed

lemmas tag_eval =
  tagsOf_simps hashTagEnd_def string_eval

lemma matchTaskRegex_tab:
  "matchTaskRegex (js ''- [ ] #a'' @ [9] @ js ''#b'') =
     Some ([], js ''-'', js '' '', js ''#a'' @ [9] @ js ''#b'')"
  by (simp add: parse_defs char_class_defs js_simps)

lemma matchTaskRegex_lone_hash:
  "matchTaskRegex (js ''- [ ] # x'') = Some ([], js ''-'', js '' '', js ''# x'')"
  by (simp add: parse_defs char_class_defs js_simps)

lemma matchTaskRegex_tab_space:
  "matchTaskRegex (js ''- [ ] #a'' @ [9] @ js '' b'') =
     Some ([], js ''-'', js '' '', js ''#a'' @ [9] @ js '' b'')"
  by (simp add: parse_defs char_class_defs js_simps)

text \<open>
  C7 as stated fails in three ways. A tab is white space but does not end a tag: in
  \<open>#a\<close>, tab, \<open>#b\<close> the first match takes the tab, the \<open>#\<close> after it is then preceded by
  nothing the expression can take, and only \<open>#a\<close> is listed. A \<open>#\<close> with no tag
  character after it, as in \<open># x\<close>, is not a match at all. And a match is trimmed
  before it is listed: from \<open>#a\<close>, tab, space, \<open>b\<close> the tag is \<open>#a\<close>, without the tab.
\<close>

theorem parseTaskLine_tags_counterexample:
  "map_option tags (parseTaskLine (js ''- [ ] #a'' @ [9] @ js ''#b'') (js ''notes.md'') 0)
     = Some [js ''#a''] \<and>
   specHashTags True (js ''#a'' @ [9] @ js ''#b'') = [js ''#a'' @ [9], js ''#b''] \<and>
   map_option tags (parseTaskLine (js ''- [ ] # x'') (js ''notes.md'') 0) = Some [] \<and>
   specHashTags True (js ''# x'') = [js ''#''] \<and>
   map_option tags (parseTaskLine (js ''- [ ] #a'' @ [9] @ js '' b'') (js ''notes.md'') 0)
     = Some [js ''#a''] \<and>
   specHashTags True (js ''#a'' @ [9] @ js '' b'') = [js ''#a'' @ [9]]"
proof -
  have 1: "tagsOf (matchAllHashTags True (trim (js ''#a'' @ [9] @ js ''#b''))) = [js ''#a'']"
    by (simp add: tag_eval)
  have 2: "specHashTags True (js ''#a'' @ [9] @ js ''#b'') = [js ''#a'' @ [9], js ''#b'']"
    by (simp add: tag_eval)
  have 3: "tagsOf (matchAllHashTags True (trim (js ''# x''))) = []"
    by (simp add: tag_eval)
  have 4: "specHashTags True (js ''# x'') = [js ''#'']"
    by (simp add: tag_eval)
  have 5: "tagsOf (matchAllHashTags True (trim (js ''#a'' @ [9] @ js '' b''))) = [js ''#a'']"
    by (simp add: tag_eval)
  have 6: "specHashTags True (js ''#a'' @ [9] @ js '' b'') = [js ''#a'' @ [9]]"
    by (simp add: tag_eval)
  show ?thesis
    by (simp only: parseTaskLine_eval(2) [OF matchTaskRegex_tab]
          parseTaskLine_eval(2) [OF matchTaskRegex_lone_hash]
          parseTaskLine_eval(2) [OF matchTaskRegex_tab_space] 1 2 3 4 5 6 simp_thms)
qed

text \<open>
  The description \<open>#a #a/b text\<close> of the specification, and a description with a tab
  before its first tag.
\<close>

lemma taskLine_two_tags:
  "taskLine (js ''- [ ] #a #a/b text'') (js '' '') (js '' #a #a/b text'')"
  unfolding taskLine_def
  apply (rule exI [of _ "[]"], rule exI [of _ "js ''-''"], rule exI [of _ "js '' ''"])
  apply (simp add: js_simps isListMarker_def isCodePoint_def isLineTerminator_def)
  done

lemma taskLine_tab_tags:
  "taskLine (js ''  * [x] fix'' @ [9] @ js ''#a #b'') (js ''x'') (js '' fix'' @ [9] @ js ''#a #b'')"
  unfolding taskLine_def
  apply (rule exI [of _ "js ''  ''"], rule exI [of _ "js ''*''"], rule exI [of _ "js '' ''"])
  apply (simp add: js_simps isListMarker_def isCodePoint_def isLineTerminator_def
      isIndentation_def isWhiteSpace_def)
  done

theorem parseTaskLine_tags_witness:
  "map_option tags (parseTaskLine (js ''- [ ] #a #a/b text'') (js ''notes.md'') 0)
     = Some [js ''#a'', js ''#a/b''] \<and>
   map_option tags
     (parseTaskLine (js ''  * [x] fix'' @ [9] @ js ''#a #b'') (js ''notes.md'') 7)
     = Some [js ''#a'', js ''#b'']"
proof -
  have 1: "amendedHashTags True (specDescription (js '' #a #a/b text'')) =
             [js ''#a'', js ''#a/b'']"
    by (simp add: specDescription_def tag_eval)
  have 2: "amendedHashTags True (specDescription (js '' fix'' @ [9] @ js ''#a #b'')) =
             [js ''#a'', js ''#b'']"
    by (simp add: specDescription_def tag_eval)
  from parseTaskLine_tags [of "js ''- [ ] #a #a/b text''" "js ''notes.md''" 0]
    taskLine_two_tags 1
  have a: "map_option tags (parseTaskLine (js ''- [ ] #a #a/b text'') (js ''notes.md'') 0)
     = Some [js ''#a'', js ''#a/b'']"
    by fastforce
  from parseTaskLine_tags [of "js ''  * [x] fix'' @ [9] @ js ''#a #b''" "js ''notes.md''" 7]
    taskLine_tab_tags 2
  have b: "map_option tags
     (parseTaskLine (js ''  * [x] fix'' @ [9] @ js ''#a #b'') (js ''notes.md'') 7)
     = Some [js ''#a'', js ''#b'']"
    by fastforce
  from a b show ?thesis by (rule conjI)
qed

subsection \<open>Every tag begins with \<open>#\<close>\<close>

lemma matchAllHashTags_shape:
  "m \<in> set (matchAllHashTags b s) \<Longrightarrow>
     \<exists>r. m = 35 # r \<or> (\<exists>c. isWhiteSpace c \<and> m = c # 35 # r)"
proof (induction b s rule: matchAllHashTags.induct)
  case (1 atStart)
  then show ?case by simp
next
  case (2 atStart c cs)
  show ?case
  proof (cases "atStart \<and> c = 35 \<and> takeWhile (\<lambda>x. \<not> hashTagEnd x) cs \<noteq> []")
    case True
    from 2(4) have "m = c # takeWhile (\<lambda>x. \<not> hashTagEnd x) cs \<or>
        m \<in> set (matchAllHashTags False (dropWhile (\<lambda>x. \<not> hashTagEnd x) cs))"
      unfolding matchAllHashTags_unfold1 [OF True] by simp
    with 2(1) [OF True] True show ?thesis by blast
  next
    case False
    note F = this
    show ?thesis
    proof (cases cs)
      case Nil
      from 2(4) show ?thesis
        unfolding Nil matchAllHashTags_unfold2 [OF F [unfolded Nil]] by simp
    next
      case (Cons d r)
      note F' = F [unfolded Cons]
      show ?thesis
      proof (cases "isWhiteSpace c \<and> d = 35 \<and> takeWhile (\<lambda>x. \<not> hashTagEnd x) r \<noteq> []")
        case True
        from 2(4) have "m = c # d # takeWhile (\<lambda>x. \<not> hashTagEnd x) r \<or>
            m \<in> set (matchAllHashTags False (dropWhile (\<lambda>x. \<not> hashTagEnd x) r))"
          unfolding Cons matchAllHashTags_unfold3 [OF F' True] by simp
        with 2(2) [OF F Cons True] True show ?thesis by blast
      next
        case False
        from 2(4) have "m \<in> set (matchAllHashTags False cs)"
          unfolding Cons matchAllHashTags_unfold4 [OF F' False] .
        with 2(3) [OF F Cons False] show ?thesis by blast
      qed
    qed
  qed
qed

lemma trim_match_hash:
  assumes "m \<in> set (matchAllHashTags b s)"
  shows "startsWith (trim m) (js ''#'')"
proof -
  from matchAllHashTags_shape [OF assms] obtain r where
    r: "m = 35 # r \<or> (\<exists>c. isWhiteSpace c \<and> m = c # 35 # r)" by blast
  from trim_keeps_hash [of r] obtain r' where h: "trim (35 # r) = 35 # r'" by blast
  from r h have "trim m = 35 # r'" by (auto simp: trim_def)
  then show ?thesis by (simp add: js_simps)
qed

lemma parseTaskLine_tags_hash:
  assumes "parseTaskLine line fp ln = Some t"
  shows "\<forall>tag \<in> set (tags t). startsWith tag (js ''#'')"
proof -
  from parseTaskLine_SomeD [OF assms] obtain r where
    "tags t = tagsOf (matchAllHashTags True (trim r))"
    unfolding tagsOf_def by blast
  then show ?thesis by (auto simp: tagsOf_def trim_match_hash)
qed

end
